theory Spec2Isabelle
  imports Complex_Main "HOL-Library.Word"
begin

section \<open>Machine values\<close>

text \<open>
  The native library works on \<^verbatim>\<open>uint32_t\<close> counters and on \<^verbatim>\<open>float\<close> /
  \<^verbatim>\<open>double\<close> samples. Unsigned counters are 32-bit words, so every \<^verbatim>\<open>+\<close> and
  \<^verbatim>\<open>*\<close> wraps as in C.

  A floating-point value is \<open>NaN\<close>, an infinity or a finite number \<open>Fin x\<close>. The two
  zeros are one value: no operation of the library tells them apart (\<^verbatim>\<open>-0.0f >= 0.0f\<close>
  holds, and the one divisor that can be zero is positive). The operations \<open>fadd\<close>,
  \<open>fmul\<close>, ... below are the exact ones, with the IEEE 754 rules for \<open>NaN\<close> and the
  infinities; a machine operation is the exact one followed by the rounding of its type,
  \<open>fl32\<close> for \<^verbatim>\<open>float\<close> and \<open>fl64\<close> for \<^verbatim>\<open>double\<close> (round to nearest, ties to even,
  gradual underflow, overflow to infinity). Each operation is rounded on its own: no
  fused multiply-add and no excess precision. Every ordered comparison with a \<open>NaN\<close>
  operand is false.
\<close>

type_synonym u32 = "32 word"

datatype fault = OutOfBounds | DivByZero

datatype fval = NaN | Fin real | PInf | MInf

fun fadd :: "fval \<Rightarrow> fval \<Rightarrow> fval" where
  "fadd (Fin x) (Fin y) = Fin (x + y)"
| "fadd NaN _ = NaN"
| "fadd _ NaN = NaN"
| "fadd PInf MInf = NaN"
| "fadd MInf PInf = NaN"
| "fadd PInf _ = PInf"
| "fadd _ PInf = PInf"
| "fadd MInf _ = MInf"
| "fadd _ MInf = MInf"

fun fsub :: "fval \<Rightarrow> fval \<Rightarrow> fval" where
  "fsub (Fin x) (Fin y) = Fin (x - y)"
| "fsub NaN _ = NaN"
| "fsub _ NaN = NaN"
| "fsub PInf PInf = NaN"
| "fsub MInf MInf = NaN"
| "fsub PInf _ = PInf"
| "fsub _ PInf = MInf"
| "fsub MInf _ = MInf"
| "fsub _ MInf = PInf"

fun fmul :: "fval \<Rightarrow> fval \<Rightarrow> fval" where
  "fmul (Fin x) (Fin y) = Fin (x * y)"
| "fmul NaN _ = NaN"
| "fmul _ NaN = NaN"
| "fmul PInf (Fin y) = (if y = 0 then NaN else if 0 < y then PInf else MInf)"
| "fmul MInf (Fin y) = (if y = 0 then NaN else if 0 < y then MInf else PInf)"
| "fmul (Fin x) PInf = (if x = 0 then NaN else if 0 < x then PInf else MInf)"
| "fmul (Fin x) MInf = (if x = 0 then NaN else if 0 < x then MInf else PInf)"
| "fmul PInf PInf = PInf"
| "fmul MInf MInf = PInf"
| "fmul PInf MInf = MInf"
| "fmul MInf PInf = MInf"

text \<open>A zero divisor is the positive zero here. No division of the library has a zero
  divisor but the one by a ratio that the resampler's rounding may have flushed to zero,
  which is positive.\<close>

fun fdiv :: "fval \<Rightarrow> fval \<Rightarrow> fval" where
  "fdiv (Fin x) (Fin y) =
     (if y = 0 then (if x = 0 then NaN else if 0 < x then PInf else MInf) else Fin (x / y))"
| "fdiv NaN _ = NaN"
| "fdiv _ NaN = NaN"
| "fdiv PInf (Fin y) = (if 0 \<le> y then PInf else MInf)"
| "fdiv MInf (Fin y) = (if 0 \<le> y then MInf else PInf)"
| "fdiv (Fin x) _ = Fin 0"
| "fdiv _ _ = NaN"

fun fsqrt :: "fval \<Rightarrow> fval" where
  "fsqrt (Fin x) = (if x < 0 then NaN else Fin (sqrt x))"
| "fsqrt PInf = PInf"
| "fsqrt _ = NaN"

fun flog10 :: "fval \<Rightarrow> fval" where
  "flog10 (Fin x) = (if x < 0 then NaN else if x = 0 then MInf else Fin (log 10 x))"
| "flog10 PInf = PInf"
| "flog10 _ = NaN"

fun flt :: "fval \<Rightarrow> fval \<Rightarrow> bool" where
  "flt (Fin x) (Fin y) = (x < y)"
| "flt NaN _ = False"
| "flt _ NaN = False"
| "flt PInf _ = False"
| "flt _ MInf = False"
| "flt _ _ = True"

fun fle :: "fval \<Rightarrow> fval \<Rightarrow> bool" where
  "fle (Fin x) (Fin y) = (x \<le> y)"
| "fle NaN _ = False"
| "fle _ NaN = False"
| "fle MInf _ = True"
| "fle _ PInf = True"
| "fle _ _ = False"

definition fgt :: "fval \<Rightarrow> fval \<Rightarrow> bool" where
  "fgt a b = flt b a"

definition fge :: "fval \<Rightarrow> fval \<Rightarrow> bool" where
  "fge a b = fle b a"

definition is_fin :: "fval \<Rightarrow> bool" where
  "is_fin a = (case a of Fin _ \<Rightarrow> True | _ \<Rightarrow> False)"

text \<open>Conversion of an unsigned counter to \<^verbatim>\<open>double\<close>, which is exact.\<close>

definition of_u32 :: "u32 \<Rightarrow> fval" where
  "of_u32 n = Fin (real (unat n))"

subsection \<open>Rounding\<close>

text \<open>
  \<open>rnd p emin x\<close> is the number with \<open>p\<close> significant bits and an exponent of at least
  \<open>emin\<close> that is nearest to \<open>x\<close>, the one with an even significand when two are equally
  near. \<open>round_to\<close> adds the overflow to an infinity.
\<close>

definition round_half_even :: "real \<Rightarrow> int" where
  "round_half_even y =
     (let f = \<lfloor>y\<rfloor> in
      if y - of_int f < 1 / 2 then f
      else if 1 / 2 < y - of_int f then f + 1
      else if even f then f else f + 1)"

lemma rhe_bounds: "\<lfloor>y\<rfloor> \<le> round_half_even y" "round_half_even y \<le> \<lfloor>y\<rfloor> + 1"
  by (simp_all add: round_half_even_def Let_def)

lemma rhe_of_int: "round_half_even (of_int k) = k"
  by (simp add: round_half_even_def Let_def)

lemma rhe_mono:
  assumes "a \<le> b"
  shows "round_half_even a \<le> round_half_even b"
proof (cases "\<lfloor>a\<rfloor> = \<lfloor>b\<rfloor>")
  case True
  then show ?thesis using assms by (auto simp: round_half_even_def Let_def)
next
  case False
  then have "\<lfloor>a\<rfloor> < \<lfloor>b\<rfloor>" using floor_mono [OF assms] by linarith
  then show ?thesis using rhe_bounds(2) [of a] rhe_bounds(1) [of b] by linarith
qed

lemma rhe_le_int: "y \<le> of_int k \<Longrightarrow> round_half_even y \<le> k"
  using rhe_mono [of y "of_int k"] by (simp add: rhe_of_int)

lemma rhe_ge_int: "of_int k \<le> y \<Longrightarrow> k \<le> round_half_even y"
  using rhe_mono [of "of_int k" y] by (simp add: rhe_of_int)

text \<open>Rounding to \<open>p\<close> significant bits with exponents from \<open>emin\<close> (gradual underflow).\<close>

definition rnd :: "nat \<Rightarrow> int \<Rightarrow> real \<Rightarrow> real" where
  "rnd p emin x =
     (if x = 0 then 0
      else let e = max \<lfloor>log 2 \<bar>x\<bar>\<rfloor> emin;
               s = 2 powi (e - int p + 1)
           in s * of_int (round_half_even (x / s)))"

lemma rnd_exp:
  assumes "0 < x" "e = max \<lfloor>log 2 x\<rfloor> emin"
  shows "rnd p emin x = 2 powi (e - int p + 1) * of_int (round_half_even (x / 2 powi (e - int p + 1)))"
  using assms by (simp add: rnd_def Let_def)

lemma floor_log2_bounds:
  assumes "0 < x"
  shows "2 powi \<lfloor>log 2 x\<rfloor> \<le> x" "x < 2 powi (\<lfloor>log 2 x\<rfloor> + 1)"
proof -
  have "\<lfloor>log 2 x\<rfloor> = \<lfloor>log 2 x\<rfloor>" ..
  then have "2 powr real_of_int \<lfloor>log 2 x\<rfloor> \<le> x \<and> x < 2 powr real_of_int (\<lfloor>log 2 x\<rfloor> + 1)"
    using floor_log_eq_powr_iff [of x 2 "\<lfloor>log 2 x\<rfloor>"] assms by simp
  then show "2 powi \<lfloor>log 2 x\<rfloor> \<le> x" "x < 2 powi (\<lfloor>log 2 x\<rfloor> + 1)"
    by (simp_all only: powr_real_of_int' [of 2, simplified])
qed

lemma floor_log2_eq:
  assumes "2 powi e \<le> x" "x < 2 powi (e + 1)"
  shows "\<lfloor>log 2 x\<rfloor> = e"
proof -
  have "0 < (2::real) powi e" by simp
  then have x: "0 < x" using assms(1) by linarith
  have "2 powr real_of_int e \<le> x \<and> x < 2 powr real_of_int (e + 1)"
    using assms by (simp only: powr_real_of_int' [of 2, simplified])
  then show ?thesis using floor_log_eq_powr_iff [of x 2 e] x by simp
qed

lemma pow2_quot: "(2::real) powi a / 2 powi b = 2 powi (a - b)"
  by (simp add: power_int_diff)

lemma pow2_nat: "0 \<le> k \<Longrightarrow> (2::real) powi k = of_int (2 ^ nat k)"
  by (simp add: power_int_def)

text \<open>The rounded value stays between the powers of two around the value.\<close>

lemma rnd_upper:
  assumes "0 < x" "x \<le> 2 powi (k + 1)" "max \<lfloor>log 2 x\<rfloor> emin \<le> k" "1 \<le> p"
  shows "rnd p emin x \<le> 2 powi (k + 1)"
proof -
  define e where "e = max \<lfloor>log 2 x\<rfloor> emin"
  define s :: real where "s = 2 powi (e - int p + 1)"
  have s0: "0 < s" by (simp add: s_def)
  have r: "rnd p emin x = s * of_int (round_half_even (x / s))"
    using rnd_exp [OF assms(1) e_def] by (simp add: s_def)
  define m :: int where "m = 2 ^ nat (k - e + int p)"
  have ke: "e \<le> k" using assms(3) by (simp add: e_def)
  have "2 powi (k + 1) / s = 2 powi (k - e + int p)"
    by (simp add: s_def pow2_quot algebra_simps)
  also have "\<dots> = of_int m" using ke by (simp only: m_def pow2_nat)
  finally have q: "2 powi (k + 1) / s = of_int m" .
  have "x / s \<le> 2 powi (k + 1) / s" using assms(2) s0 by (simp add: divide_right_mono)
  then have "round_half_even (x / s) \<le> m" using q rhe_le_int by simp
  then have "s * of_int (round_half_even (x / s)) \<le> s * of_int m"
    using s0 by simp
  also have "s * of_int m = 2 powi (k + 1)" using q s0 by (simp add: field_simps)
  finally show ?thesis using r by simp
qed

lemma rnd_lower:
  assumes "2 powi k \<le> x" "emin \<le> k" "1 \<le> p"
  shows "2 powi k \<le> rnd p emin x"
proof -
  have k0: "0 < (2::real) powi k" by simp
  then have x0: "0 < x" using assms(1) by linarith
  define e where "e = max \<lfloor>log 2 x\<rfloor> emin"
  define s :: real where "s = 2 powi (e - int p + 1)"
  have s0: "0 < s" by (simp add: s_def)
  have r: "rnd p emin x = s * of_int (round_half_even (x / s))"
    using rnd_exp [OF x0 e_def] by (simp add: s_def)
  have "k \<le> \<lfloor>log 2 x\<rfloor>"
  proof (rule ccontr)
    assume "\<not> k \<le> \<lfloor>log 2 x\<rfloor>"
    then have "\<lfloor>log 2 x\<rfloor> + 1 \<le> k" by simp
    then have "(2::real) powi (\<lfloor>log 2 x\<rfloor> + 1) \<le> 2 powi k" by (intro power_int_increasing) simp_all
    then show False using floor_log2_bounds(2) [OF x0] assms(1) by linarith
  qed
  then have e: "e = \<lfloor>log 2 x\<rfloor>" and ke: "k \<le> e" using assms(2) by (simp_all add: e_def)
  have ex: "2 powi e \<le> x" using floor_log2_bounds(1) [OF x0] e by simp
  define m :: int where "m = 2 ^ nat (int p - 1)"
  have "2 powi e / s = 2 powi (int p - 1)" by (simp add: s_def pow2_quot algebra_simps)
  also have "\<dots> = of_int m" using assms(3) by (simp only: m_def pow2_nat)
  finally have q: "2 powi e / s = of_int m" .
  have "2 powi e / s \<le> x / s" using ex s0 by (simp add: divide_right_mono)
  then have "m \<le> round_half_even (x / s)" using q rhe_ge_int by simp
  then have "s * of_int m \<le> s * of_int (round_half_even (x / s))" using s0 by simp
  moreover have "s * of_int m = 2 powi e" using q s0 by (simp add: field_simps)
  moreover have "(2::real) powi k \<le> 2 powi e" using ke by (intro power_int_increasing) simp_all
  ultimately show ?thesis using r by linarith
qed

lemma rnd_nonneg: "0 \<le> x \<Longrightarrow> 0 \<le> rnd p emin x"
proof (cases "x = 0")
  case True then show ?thesis by (simp add: rnd_def)
next
  case False
  assume "0 \<le> x"
  then have x0: "0 < x" using False by simp
  have "0 \<le> round_half_even (x / 2 powi (max \<lfloor>log 2 x\<rfloor> emin - int p + 1))"
    using x0 by (intro rhe_ge_int) simp
  then show ?thesis using rnd_exp [OF x0 refl, of p emin] by simp
qed

lemma rnd_mono_pos:
  assumes "0 < x" "x \<le> y" "1 \<le> p"
  shows "rnd p emin x \<le> rnd p emin y"
proof -
  have y0: "0 < y" using assms by linarith
  define ex where "ex = max \<lfloor>log 2 x\<rfloor> emin"
  define ey where "ey = max \<lfloor>log 2 y\<rfloor> emin"
  have "log 2 x \<le> log 2 y" using assms by simp
  then have fl: "\<lfloor>log 2 x\<rfloor> \<le> \<lfloor>log 2 y\<rfloor>" by (rule floor_mono)
  then have le: "ex \<le> ey" by (simp add: ex_def ey_def)
  show ?thesis
  proof (cases "ex = ey")
    case True
    define s :: real where "s = 2 powi (ex - int p + 1)"
    have s0: "0 < s" by (simp add: s_def)
    have "x / s \<le> y / s" using assms(2) s0 by (simp add: divide_right_mono)
    then have "round_half_even (x / s) \<le> round_half_even (y / s)" by (rule rhe_mono)
    then have "s * of_int (round_half_even (x / s)) \<le> s * of_int (round_half_even (y / s))"
      using s0 by simp
    then show ?thesis
      using rnd_exp [OF assms(1) ex_def, of p] rnd_exp [OF y0 ey_def, of p] True
      by (simp add: s_def)
  next
    case False
    then have lt: "ex + 1 \<le> ey" using le by simp
    then have "emin < ey" by (simp add: ex_def)
    then have ey: "ey = \<lfloor>log 2 y\<rfloor>" and emin: "emin \<le> ey" by (simp_all add: ey_def)
    have "2 powi ey \<le> y" using floor_log2_bounds(1) [OF y0] ey by simp
    then have a: "2 powi ey \<le> rnd p emin y" using emin assms(3) by (rule rnd_lower)
    have "(2::real) powi (\<lfloor>log 2 x\<rfloor> + 1) \<le> 2 powi (ex + 1)"
      by (intro power_int_increasing) (simp_all add: ex_def)
    then have "x \<le> 2 powi (ex + 1)" using floor_log2_bounds(2) [OF assms(1)] by linarith
    then have b: "rnd p emin x \<le> 2 powi (ex + 1)"
      using assms(1,3) by (intro rnd_upper) (simp_all add: ex_def)
    have "(2::real) powi (ex + 1) \<le> 2 powi ey" using lt by (intro power_int_increasing) simp_all
    then show ?thesis using a b by linarith
  qed
qed

lemma rnd_mono_nonneg:
  assumes "0 \<le> x" "x \<le> y" "1 \<le> p"
  shows "rnd p emin x \<le> rnd p emin y"
proof (cases "x = 0")
  case True
  then show ?thesis using rnd_nonneg [of y p emin] assms by (simp add: rnd_def)
next
  case False
  then show ?thesis using assms by (intro rnd_mono_pos) simp_all
qed

text \<open>The rounding of a value whose exponent is known.\<close>

lemma rnd_normal:
  assumes "2 powi e \<le> x" "x < 2 powi (e + 1)" "emin \<le> e"
  shows "rnd p emin x = 2 powi (e - int p + 1) * of_int (round_half_even (x / 2 powi (e - int p + 1)))"
proof -
  have "0 < (2::real) powi e" by simp
  then have x0: "0 < x" using assms(1) by linarith
  have "\<lfloor>log 2 x\<rfloor> = e" using assms(1,2) by (rule floor_log2_eq)
  then have "e = max \<lfloor>log 2 x\<rfloor> emin" using assms(3) by simp
  then show ?thesis using x0 by (rule rnd_exp [rotated])
qed

text \<open>Integers of at most \<open>p\<close> bits are representable.\<close>

lemma rnd_of_nat:
  assumes "n < 2 ^ p" "emin \<le> 0" "1 \<le> p"
  shows "rnd p emin (real n) = real n"
proof (cases "n = 0")
  case True then show ?thesis by (simp add: rnd_def)
next
  case False
  then have x0: "0 < real n" by simp
  define e where "e = \<lfloor>log 2 (real n)\<rfloor>"
  have "1 \<le> real n" using False by simp
  then have "0 \<le> log 2 (real n)" by simp
  then have e0: "0 \<le> e" by (simp add: e_def)
  have "emin \<le> e" using e0 assms(2) by linarith
  then have em: "e = max \<lfloor>log 2 (real n)\<rfloor> emin" unfolding e_def by linarith
  have le: "2 powi e \<le> real n" using floor_log2_bounds(1) [OF x0] by (simp add: e_def)
  have "real n < real (2 ^ p)" using assms(1) by (simp only: of_nat_less_iff)
  then have lt: "real n < 2 powi (int p)" by simp
  have "e < int p"
  proof (rule ccontr)
    assume "\<not> e < int p"
    then have "(2::real) powi (int p) \<le> 2 powi e" by (intro power_int_increasing) simp_all
    then show False using le lt by linarith
  qed
  then have d: "0 \<le> int p - 1 - e" by simp
  define s :: real where "s = 2 powi (e - int p + 1)"
  have s0: "0 < s" by (simp add: s_def)
  have "1 / s = 2 powi (int p - 1 - e)"
    using pow2_quot [of 0 "e - int p + 1"] by (simp add: s_def algebra_simps)
  also have "\<dots> = of_int (2 ^ nat (int p - 1 - e))" using d by (rule pow2_nat)
  finally have q: "1 / s = of_int (2 ^ nat (int p - 1 - e))" .
  have "real n / s = real n * (1 / s)" by simp
  also have "\<dots> = of_int (int n * 2 ^ nat (int p - 1 - e))" by (simp only: q) simp
  finally have "round_half_even (real n / s) = int n * 2 ^ nat (int p - 1 - e)"
    by (simp only: rhe_of_int)
  then have "s * of_int (round_half_even (real n / s)) = s * (real n * (1 / s))"
    using q by simp
  also have "\<dots> = real n" using s0 by simp
  finally show ?thesis using rnd_exp [OF x0 em, of p] by (simp add: s_def)
qed

text \<open>A multiple of the unit of its exponent is representable, so rounding is idempotent.\<close>

lemma floor_log2_less:
  assumes "0 < y" "y < 2 powi e"
  shows "\<lfloor>log 2 y\<rfloor> < e"
proof (rule ccontr)
  assume "\<not> \<lfloor>log 2 y\<rfloor> < e"
  then have "(2::real) powi e \<le> 2 powi \<lfloor>log 2 y\<rfloor>" by (intro power_int_increasing) simp_all
  then show False using floor_log2_bounds(1) [OF assms(1)] assms(2) by linarith
qed





definition round_to :: "nat \<Rightarrow> int \<Rightarrow> int \<Rightarrow> real \<Rightarrow> fval" where
  "round_to p emin emax x =
     (let y = rnd p emin x
      in if 2 powi (emax + 1) \<le> \<bar>y\<bar> then (if 0 < x then PInf else MInf) else Fin y)"

definition fl32 :: "fval \<Rightarrow> fval" where
  "fl32 a = (case a of Fin x \<Rightarrow> round_to 24 (- 126) 127 x | _ \<Rightarrow> a)"

definition fl64 :: "fval \<Rightarrow> fval" where
  "fl64 a = (case a of Fin x \<Rightarrow> round_to 53 (- 1022) 1023 x | _ \<Rightarrow> a)"

subsection \<open>Rounded values\<close>

lemma unat_lt_u32: "unat (w :: u32) < 2 ^ 32"
  using unsigned_less [of w, where 'a = nat] by simp

lemma pow2_not_le_0: "\<not> (2::real) powi k \<le> 0"
  by (simp add: not_le)

lemma round_to_0: "round_to p emin emax 0 = Fin 0"
  by (simp add: round_to_def rnd_def pow2_not_le_0)

lemma round_to_of_nat:
  assumes "n < 2 ^ p" "emin \<le> 0" "1 \<le> p" "int p \<le> emax + 1"
  shows "round_to p emin emax (real n) = Fin (real n)"
proof -
  have "real n < real (2 ^ p)" using assms(1) by (simp only: of_nat_less_iff)
  then have "real n < 2 powi (int p)" by simp
  also have "(2::real) powi (int p) \<le> 2 powi (emax + 1)"
    using assms(4) by (intro power_int_increasing) simp_all
  finally have "\<not> 2 powi (emax + 1) \<le> \<bar>real n\<bar>" by simp
  then show ?thesis using rnd_of_nat [OF assms(1-3)] by (simp add: round_to_def)
qed

lemma fl64_of_nat: "n < 2 ^ 53 \<Longrightarrow> fl64 (Fin (real n)) = Fin (real n)"
  by (simp add: fl64_def round_to_of_nat)

lemma fl32_of_nat: "n < 2 ^ 24 \<Longrightarrow> fl32 (Fin (real n)) = Fin (real n)"
  by (simp add: fl32_def round_to_of_nat)

lemma fl64_0: "fl64 (Fin 0) = Fin 0"
  using fl64_of_nat [of 0] by simp

lemma fl32_0: "fl32 (Fin 0) = Fin 0"
  using fl32_of_nat [of 0] by simp

lemma fl64_1: "fl64 (Fin 1) = Fin 1"
  using fl64_of_nat [of 1] by simp

lemma fl32_1: "fl32 (Fin 1) = Fin 1"
  using fl32_of_nat [of 1] by simp










text \<open>The literal \<^verbatim>\<open>1e-10f\<close> lies just above \<open>10\<^sup>-\<^sup>1\<^sup>0\<close>.\<close>

lemma float_1e_10: "fl32 (Fin (1 / 10 ^ 10)) = Fin (14411519 / 2 ^ 57)"
proof -
  have "rnd 24 (- 126) (1 / 10 ^ 10) = 14411519 / 2 ^ 57"
    using rnd_normal [of "- 34" "1 / 10 ^ 10" "- 126" 24]
    by (simp add: round_half_even_def Let_def)
  then show ?thesis by (simp add: fl32_def round_to_def Let_def)
qed


section \<open>Audio ring buffer\<close>

text \<open>
  \<^verbatim>\<open>struct AudioRingBuffer { float* buf; uint32_t capacity, write_pos, read_pos, count; }\<close>.
  The storage \<open>buf\<close> is the list of its cells. A load or store outside the storage
  and a \<^verbatim>\<open>%\<close> by zero are undefined behaviour in C; the model returns them as a
  \<open>fault\<close>.
\<close>

record AudioRingBuffer =
  buf :: "fval list"
  capacity :: u32
  write_pos :: u32
  read_pos :: u32
  count :: u32

definition ring_create :: "u32 \<Rightarrow> AudioRingBuffer" where
  "ring_create cap =
     \<lparr>buf = replicate (unat cap) (Fin 0), capacity = cap,
      write_pos = 0, read_pos = 0, count = 0\<rparr>"

lemma u32_succ_unat: "(i::u32) < n \<Longrightarrow> unat (i + 1) = Suc (unat i)"
proof -
  assume "i < n"
  then have "unat i < unat n" by (simp add: word_less_nat_alt)
  moreover have "unat n < 2 ^ 32" using unsigned_less [of n] by simp
  ultimately have "unat i + unat (1::u32) < 2 ^ LENGTH(32)" by simp
  then have "unat (i + 1) = unat i + unat (1::u32)" by (simp only: unat_add_lem)
  then show ?thesis by simp
qed

text \<open>
  \<^verbatim>\<open>ring_write(rb, data, n)\<close>: the array \<open>data\<close> is the list of its elements, \<open>n\<close> the
  count passed with it. The loop is
  \<^verbatim>\<open>for (i = 0; i < n && rb->count < rb->capacity; ++i)\<close>.
\<close>

function ring_write_loop ::
  "AudioRingBuffer \<Rightarrow> fval list \<Rightarrow> u32 \<Rightarrow> u32 \<Rightarrow> u32 \<Rightarrow> fault + (u32 \<times> AudioRingBuffer)" where
  "ring_write_loop rb data n i written =
     (if i < n \<and> count rb < capacity rb then
        (if length data \<le> unat i \<or> length (buf rb) \<le> unat (write_pos rb) then Inl OutOfBounds
         else ring_write_loop
                (rb\<lparr>buf := (buf rb)[unat (write_pos rb) := data ! unat i],
                    write_pos := (write_pos rb + 1) mod capacity rb,
                    count := count rb + 1\<rparr>)
                data n (i + 1) (written + 1))
      else Inr (written, rb))"
  by pat_completeness auto
termination
  by (relation "measure (\<lambda>(rb, data, n, i, written). unat n - unat i)")
     (auto simp: u32_succ_unat word_less_nat_alt)

declare ring_write_loop.simps [simp del]

definition ring_write :: "AudioRingBuffer \<Rightarrow> fval list \<Rightarrow> u32 \<Rightarrow> fault + (u32 \<times> AudioRingBuffer)" where
  "ring_write rb data n = ring_write_loop rb data n 0 0"

text \<open>
  \<^verbatim>\<open>ring_read(rb, out, n)\<close>: the output array is the list of the values stored at
  \<open>out[0]\<close>, \<open>out[1]\<close>, ... in this order (the caller allocates it). The loop is
  \<^verbatim>\<open>for (i = 0; i < n && rb->count > 0; ++i)\<close>.
\<close>

function ring_read_loop ::
  "AudioRingBuffer \<Rightarrow> fval list \<Rightarrow> u32 \<Rightarrow> u32 \<Rightarrow> u32 \<Rightarrow> fault + (u32 \<times> fval list \<times> AudioRingBuffer)" where
  "ring_read_loop rb out n i rd =
     (if i < n \<and> 0 < count rb then
        (if length (buf rb) \<le> unat (read_pos rb) then Inl OutOfBounds
         else if capacity rb = 0 then Inl DivByZero
         else ring_read_loop
                (rb\<lparr>read_pos := (read_pos rb + 1) mod capacity rb,
                    count := count rb - 1\<rparr>)
                (out @ [buf rb ! unat (read_pos rb)]) n (i + 1) (rd + 1))
      else Inr (rd, out, rb))"
  by pat_completeness auto
termination
  by (relation "measure (\<lambda>(rb, out, n, i, rd). unat n - unat i)")
     (auto simp: u32_succ_unat word_less_nat_alt)

declare ring_read_loop.simps [simp del]

definition ring_read :: "AudioRingBuffer \<Rightarrow> u32 \<Rightarrow> fault + (u32 \<times> fval list \<times> AudioRingBuffer)" where
  "ring_read rb n = ring_read_loop rb [] n 0 0"

definition ring_available :: "AudioRingBuffer \<Rightarrow> u32" where
  "ring_available rb = count rb"

definition ring_clear :: "AudioRingBuffer \<Rightarrow> AudioRingBuffer" where
  "ring_clear rb = rb\<lparr>write_pos := 0, read_pos := 0, count := 0\<rparr>"

text \<open>A client's calls on one buffer, run in sequence; a fault ends the run.\<close>

datatype ring_op = Write "fval list" u32 | Read u32 | Clear

fun ring_step :: "AudioRingBuffer \<Rightarrow> ring_op \<Rightarrow> fault + AudioRingBuffer" where
  "ring_step rb (Write data n) =
     (case ring_write rb data n of Inl e \<Rightarrow> Inl e | Inr (written, rb') \<Rightarrow> Inr rb')"
| "ring_step rb (Read n) =
     (case ring_read rb n of Inl e \<Rightarrow> Inl e | Inr (rd, out, rb') \<Rightarrow> Inr rb')"
| "ring_step rb Clear = Inr (ring_clear rb)"

fun ring_run :: "AudioRingBuffer \<Rightarrow> ring_op list \<Rightarrow> fault + AudioRingBuffer" where
  "ring_run rb [] = Inr rb"
| "ring_run rb (opn # ops) =
     (case ring_step rb opn of Inl e \<Rightarrow> Inl e | Inr rb' \<Rightarrow> ring_run rb' ops)"

text \<open>A call passes at most as many elements as its array holds.\<close>

fun op_ok :: "ring_op \<Rightarrow> bool" where
  "op_ok (Write data n) = (unat n \<le> length data)"
| "op_ok _ = True"

text \<open>The representation invariant, and the queue a buffer stands for: the \<open>count\<close>
  cells from \<open>read_pos\<close> on, wrapping at the capacity.\<close>

definition ring_inv :: "AudioRingBuffer \<Rightarrow> bool" where
  "ring_inv rb \<longleftrightarrow>
     length (buf rb) = unat (capacity rb) \<and> count rb \<le> capacity rb \<and>
     (if capacity rb = 0 then write_pos rb = 0 \<and> read_pos rb = 0
      else write_pos rb < capacity rb \<and> read_pos rb < capacity rb \<and>
           unat (write_pos rb) = (unat (read_pos rb) + unat (count rb)) mod unat (capacity rb))"

definition ring_contents :: "AudioRingBuffer \<Rightarrow> fval list" where
  "ring_contents rb =
     map (\<lambda>k. buf rb ! ((unat (read_pos rb) + k) mod unat (capacity rb))) [0..<unat (count rb)]"

subsection \<open>One loop iteration and the loops\<close>

lemma mod_shift_neq:
  assumes "k < c" "c < (C::nat)"
  shows "(r + k) mod C \<noteq> (r + c) mod C"
proof
  assume "(r + k) mod C = (r + c) mod C"
  then have "(r + c) mod C = (r + k) mod C" by simp
  moreover have "r + k \<le> r + c" using assms by simp
  ultimately have "C dvd (r + c) - (r + k)" by (simp add: mod_eq_dvd_iff_nat)
  then have "C dvd c - k" by simp
  moreover have "0 < c - k" "c - k < C" using assms by simp_all
  ultimately show False by (meson dvd_imp_le not_less)
qed

lemma u32_inc_mod: "(w::u32) < cap \<Longrightarrow> unat ((w + 1) mod cap) = Suc (unat w) mod unat cap"
  by (simp add: unat_mod u32_succ_unat)

lemma u32_dec_unat: "(0::u32) < c \<Longrightarrow> unat (c - 1) = unat c - 1"
  by (simp add: unat_minus_one)

lemma write_step_inv:
  fixes rb :: AudioRingBuffer and x :: fval
  assumes "ring_inv rb" "count rb < capacity rb"
  defines "rb1 \<equiv> rb\<lparr>buf := (buf rb)[unat (write_pos rb) := x],
                    write_pos := (write_pos rb + 1) mod capacity rb,
                    count := count rb + 1\<rparr>"
  shows "ring_inv rb1" "capacity rb1 = capacity rb" "unat (count rb1) = Suc (unat (count rb))"
    "ring_contents rb1 = ring_contents rb @ [x]" "read_pos rb1 = read_pos rb"
    "unat (write_pos rb) < length (buf rb)"
proof -
  let ?C = "unat (capacity rb)" and ?r = "unat (read_pos rb)" and ?c = "unat (count rb)"
    and ?w = "unat (write_pos rb)"
  from assms(2) have cn: "capacity rb \<noteq> 0" by auto
  from assms(2) have cC: "?c < ?C" by (simp add: word_less_nat_alt)
  from assms(1) cn have len: "length (buf rb) = ?C" and wlt: "write_pos rb < capacity rb"
    and rlt: "read_pos rb < capacity rb" and w: "?w = (?r + ?c) mod ?C"
    by (simp_all add: ring_inv_def)
  from wlt have wC: "?w < ?C" by (simp add: word_less_nat_alt)
  show "unat (write_pos rb) < length (buf rb)" using wC len by simp
  show cap: "capacity rb1 = capacity rb" by (simp add: rb1_def)
  show "read_pos rb1 = read_pos rb" by (simp add: rb1_def)
  show c1: "unat (count rb1) = Suc ?c" using assms(2) by (simp add: rb1_def u32_succ_unat)
  have w1: "unat (write_pos rb1) = (?r + Suc ?c) mod ?C"
    using wlt w by (simp add: rb1_def u32_inc_mod mod_Suc_eq)
  have "unat (write_pos rb1) < ?C" using w1 cC by simp
  then have wlt1: "write_pos rb1 < capacity rb1" by (simp add: word_less_nat_alt cap)
  have "Suc ?c \<le> ?C" using cC by simp
  then have cle: "count rb1 \<le> capacity rb1" using c1 by (simp add: word_le_nat_alt cap)
  show "ring_inv rb1"
    unfolding ring_inv_def using cn wlt1 cle w1 c1 rlt len
    by (simp add: cap) (simp add: rb1_def)
  have "\<forall>k<?c. (buf rb)[?w := x] ! ((?r + k) mod ?C) = buf rb ! ((?r + k) mod ?C)"
    using mod_shift_neq [OF _ cC] w by (metis nth_list_update_neq)
  moreover have "(buf rb)[?w := x] ! ((?r + ?c) mod ?C) = x"
    using w wC len by simp
  ultimately show "ring_contents rb1 = ring_contents rb @ [x]"
    unfolding ring_contents_def c1 by (simp add: rb1_def)
qed

lemma read_step_inv:
  fixes rb :: AudioRingBuffer
  assumes "ring_inv rb" "0 < count rb"
  defines "rb1 \<equiv> rb\<lparr>read_pos := (read_pos rb + 1) mod capacity rb, count := count rb - 1\<rparr>"
  shows "ring_inv rb1" "capacity rb1 = capacity rb" "unat (count rb1) = unat (count rb) - 1"
    "ring_contents rb = buf rb ! unat (read_pos rb) # ring_contents rb1"
    "unat (read_pos rb) < length (buf rb)" "capacity rb \<noteq> 0"
    "write_pos rb1 = write_pos rb" "unat (read_pos rb1) = Suc (unat (read_pos rb)) mod unat (capacity rb)"
proof -
  let ?C = "unat (capacity rb)" and ?r = "unat (read_pos rb)" and ?c = "unat (count rb)"
    and ?w = "unat (write_pos rb)"
  from assms(2) have c0: "0 < ?c" by (simp add: word_less_nat_alt)
  from assms(1) have cle: "?c \<le> ?C" by (simp add: ring_inv_def word_le_nat_alt)
  with c0 have "0 < ?C" by simp
  then show cn: "capacity rb \<noteq> 0" by (simp add: unat_gt_0)
  from assms(1) cn have len: "length (buf rb) = ?C" and wlt: "write_pos rb < capacity rb"
    and rlt: "read_pos rb < capacity rb" and w: "?w = (?r + ?c) mod ?C"
    by (simp_all add: ring_inv_def)
  from rlt have rC: "?r < ?C" by (simp add: word_less_nat_alt)
  show "unat (read_pos rb) < length (buf rb)" using rC len by simp
  show cap: "capacity rb1 = capacity rb" by (simp add: rb1_def)
  show c1: "unat (count rb1) = ?c - 1" using assms(2) by (simp add: rb1_def u32_dec_unat)
  show "write_pos rb1 = write_pos rb" by (simp add: rb1_def)
  show r1: "unat (read_pos rb1) = Suc ?r mod ?C"
    using rlt by (simp add: rb1_def u32_inc_mod)
  have "unat (read_pos rb1) < ?C" using r1 \<open>0 < ?C\<close> by simp
  then have rlt1: "read_pos rb1 < capacity rb1" by (simp add: word_less_nat_alt cap)
  have cle1: "count rb1 \<le> capacity rb1" using c1 cle by (simp add: word_le_nat_alt cap)
  have "(Suc ?r mod ?C + (?c - 1)) mod ?C = (Suc ?r + (?c - 1)) mod ?C"
    by (simp add: mod_add_left_eq)
  also have "Suc ?r + (?c - 1) = ?r + ?c" using c0 by simp
  finally have w1: "unat (write_pos rb1) = (unat (read_pos rb1) + unat (count rb1)) mod ?C"
    using w by (simp add: r1 c1) (simp add: rb1_def)
  show "ring_inv rb1"
    unfolding ring_inv_def using cn rlt1 cle1 w1 wlt len
    by (simp add: cap) (simp add: rb1_def)
  have up: "[0..<?c] = 0 # map Suc [0..<?c - 1]"
    using c0 by (metis Suc_pred' map_Suc_upt upt_conv_Cons)
  have step: "(Suc ?r mod ?C + k) mod ?C = (?r + Suc k) mod ?C" for k
    by (simp add: mod_add_left_eq)
  show "ring_contents rb = buf rb ! ?r # ring_contents rb1"
    unfolding ring_contents_def c1 r1 cap
    by (subst up) (simp add: rb1_def rC step o_def)
qed

lemma write_loop_correct:
  assumes "ring_inv rb" "unat n \<le> length data" "i \<le> n"
  shows "\<exists>rb'. ring_write_loop rb data n i w =
           Inr (w + of_nat (min (unat n - unat i) (unat (capacity rb) - unat (count rb))), rb') \<and>
         ring_inv rb' \<and> capacity rb' = capacity rb \<and> read_pos rb' = read_pos rb \<and>
         unat (count rb') = unat (count rb) + min (unat n - unat i) (unat (capacity rb) - unat (count rb)) \<and>
         ring_contents rb' = ring_contents rb @
           take (min (unat n - unat i) (unat (capacity rb) - unat (count rb))) (drop (unat i) data)"
  using assms
proof (induction rb data n i w rule: ring_write_loop.induct)
  case (1 rb data n i written)
  let ?m = "min (unat n - unat i) (unat (capacity rb) - unat (count rb))"
  show ?case
  proof (cases "i < n \<and> count rb < capacity rb")
    case False
    then have "?m = 0" using "1.prems"(3)
      by (auto simp: word_less_nat_alt word_le_nat_alt min_def)
    then show ?thesis using False "1.prems"(1) by (subst ring_write_loop.simps) auto
  next
    case True
    let ?x = "data ! unat i"
    let ?rb1 = "rb\<lparr>buf := (buf rb)[unat (write_pos rb) := ?x],
                    write_pos := (write_pos rb + 1) mod capacity rb,
                    count := count rb + 1\<rparr>"
    from True have iu: "unat (i + 1) = Suc (unat i)" using u32_succ_unat [of i n] by simp
    from True have lt: "unat i < unat n" "unat (count rb) < unat (capacity rb)"
      by (simp_all add: word_less_nat_alt)
    note st = write_step_inv(1-5) [OF "1.prems"(1) conjunct2 [OF True], where x = ?x]
      write_step_inv(6) [OF "1.prems"(1) conjunct2 [OF True]]
    have nb: "\<not> (length data \<le> unat i \<or> length (buf rb) \<le> unat (write_pos rb))"
      using lt "1.prems"(2) st(6) by simp
    have le: "i + 1 \<le> n" using True by (simp add: inc_le)
    let ?m1 = "min (unat n - unat (i + 1)) (unat (capacity ?rb1) - unat (count ?rb1))"
    from "1.IH" [OF True nb st(1) "1.prems"(2) le]
    obtain rb' where r: "ring_write_loop ?rb1 data n (i + 1) (written + 1) =
           Inr (written + 1 + of_nat ?m1, rb')"
       "ring_inv rb'" "capacity rb' = capacity ?rb1"
       "unat (count rb') = unat (count ?rb1) + ?m1"
       "ring_contents rb' = ring_contents ?rb1 @ take ?m1 (drop (unat (i + 1)) data)"
       "read_pos rb' = read_pos ?rb1"
      by blast
    have m: "?m = Suc ?m1" using lt iu st(2,3) by (simp add: min_def) arith
    have dr: "take (Suc ?m1) (drop (unat i) data) = ?x # take ?m1 (drop (unat (i + 1)) data)"
      using lt "1.prems"(2) by (simp add: iu Cons_nth_drop_Suc [symmetric])
    have "ring_write_loop rb data n i written = Inr (written + of_nat ?m, rb')"
      using True nb r(1) by (subst ring_write_loop.simps) (simp add: m)
    moreover have "capacity rb' = capacity rb" using r(3) st(2) by simp
    moreover have "read_pos rb' = read_pos rb" using r(6) by simp
    moreover have "unat (count rb') = unat (count rb) + ?m" using r(4) st(3) m by simp
    moreover have "ring_contents rb' = ring_contents rb @ take ?m (drop (unat i) data)"
      using r(5) st(4) dr m by simp
    ultimately show ?thesis using r(2) by blast
  qed
qed

lemma ring_inv_rp_mod: "ring_inv rb \<Longrightarrow> unat (read_pos rb) mod unat (capacity rb) = unat (read_pos rb)"
  by (cases "capacity rb = 0") (simp_all add: ring_inv_def word_less_nat_alt)

lemma length_ring_contents: "length (ring_contents rb) = unat (count rb)"
  by (simp add: ring_contents_def)

lemma read_loop_correct:
  assumes "ring_inv rb" "i \<le> n"
  shows "\<exists>rb'. ring_read_loop rb out n i rd =
           Inr (rd + of_nat (min (unat n - unat i) (unat (count rb))),
                out @ take (min (unat n - unat i) (unat (count rb))) (ring_contents rb), rb') \<and>
         ring_inv rb' \<and> capacity rb' = capacity rb \<and> write_pos rb' = write_pos rb \<and>
         unat (read_pos rb') =
           (unat (read_pos rb) + min (unat n - unat i) (unat (count rb))) mod unat (capacity rb) \<and>
         unat (count rb') = unat (count rb) - min (unat n - unat i) (unat (count rb)) \<and>
         ring_contents rb' = drop (min (unat n - unat i) (unat (count rb))) (ring_contents rb)"
  using assms
proof (induction rb out n i rd rule: ring_read_loop.induct)
  case (1 rb out n i rd)
  let ?m = "min (unat n - unat i) (unat (count rb))"
  show ?case
  proof (cases "i < n \<and> 0 < count rb")
    case False
    then have "?m = 0" using "1.prems"(2)
      by (auto simp: word_less_nat_alt word_le_nat_alt min_def)
    then show ?thesis using False "1.prems"(1)
      by (subst ring_read_loop.simps) (auto simp: ring_inv_rp_mod)
  next
    case True
    let ?x = "buf rb ! unat (read_pos rb)"
    let ?rb1 = "rb\<lparr>read_pos := (read_pos rb + 1) mod capacity rb, count := count rb - 1\<rparr>"
    from True have iu: "unat (i + 1) = Suc (unat i)" using u32_succ_unat [of i n] by simp
    from True have lt: "unat i < unat n" "0 < unat (count rb)"
      by (simp_all add: word_less_nat_alt)
    note st = read_step_inv [OF "1.prems"(1) conjunct2 [OF True]]
    have nb: "\<not> length (buf rb) \<le> unat (read_pos rb)" using st(5) by simp
    have le: "i + 1 \<le> n" using True by (simp add: inc_le)
    let ?m1 = "min (unat n - unat (i + 1)) (unat (count ?rb1))"
    from "1.IH" [OF True nb st(6) st(1) le]
    obtain rb' where r: "ring_read_loop ?rb1 (out @ [?x]) n (i + 1) (rd + 1) =
           Inr (rd + 1 + of_nat ?m1, (out @ [?x]) @ take ?m1 (ring_contents ?rb1), rb')"
       "ring_inv rb'" "capacity rb' = capacity ?rb1"
       "unat (count rb') = unat (count ?rb1) - ?m1"
       "ring_contents rb' = drop ?m1 (ring_contents ?rb1)"
       "write_pos rb' = write_pos ?rb1"
       "unat (read_pos rb') = (unat (read_pos ?rb1) + ?m1) mod unat (capacity ?rb1)"
      by blast
    have m: "?m = Suc ?m1" using lt iu st(3) by (simp add: min_def) arith
    have "ring_read_loop rb out n i rd =
            Inr (rd + of_nat ?m, out @ take ?m (ring_contents rb), rb')"
      using True nb st(6) r(1) by (subst ring_read_loop.simps) (simp add: m st(4))
    moreover have "capacity rb' = capacity rb" using r(3) st(2) by simp
    moreover have "write_pos rb' = write_pos rb" using r(6) by simp
    moreover have "unat (read_pos rb') = (unat (read_pos rb) + ?m) mod unat (capacity rb)"
      using r(7) st(8) by (simp add: m mod_add_left_eq)
    moreover have "unat (count rb') = unat (count rb) - ?m" using r(4) st(3) m by simp
    moreover have "ring_contents rb' = drop ?m (ring_contents rb)"
      using r(5) m by (simp add: st(4))
    ultimately show ?thesis using r(2) by blast
  qed
qed

subsection \<open>Calls and runs of calls\<close>

lemma unat_of_nat_u32: "m < 2 ^ 32 \<Longrightarrow> unat (word_of_nat m :: u32) = m"
  by (simp add: unat_of_nat)

lemma ring_inv_wp_advance:
  assumes "ring_inv rb" "ring_inv rb'" "capacity rb' = capacity rb" "read_pos rb' = read_pos rb"
    "unat (count rb') = unat (count rb) + m"
  shows "unat (write_pos rb') = (unat (write_pos rb) + m) mod unat (capacity rb)"
proof (cases "capacity rb = 0")
  case True
  with assms show ?thesis by (simp add: ring_inv_def word_le_nat_alt)
next
  case False
  with assms show ?thesis by (simp add: ring_inv_def mod_add_left_eq add.assoc)
qed

lemma ring_write_correct:
  assumes "ring_inv rb" "unat n \<le> length data"
  shows "\<exists>rb'. ring_write rb data n =
           Inr (if unat (capacity rb) - unat (count rb) < unat n then capacity rb - count rb else n, rb') \<and>
         ring_inv rb' \<and> capacity rb' = capacity rb \<and> read_pos rb' = read_pos rb \<and>
         unat (write_pos rb') =
           (unat (write_pos rb) + min (unat n) (unat (capacity rb) - unat (count rb))) mod unat (capacity rb) \<and>
         unat (count rb') = unat (count rb) + min (unat n) (unat (capacity rb) - unat (count rb)) \<and>
         ring_contents rb' = ring_contents rb @
           take (min (unat n) (unat (capacity rb) - unat (count rb))) data"
proof -
  let ?m = "min (unat n) (unat (capacity rb) - unat (count rb))"
  from write_loop_correct [OF assms, of 0 0]
  obtain rb' where r: "ring_write rb data n = Inr (word_of_nat ?m, rb')"
    "ring_inv rb'" "capacity rb' = capacity rb" "read_pos rb' = read_pos rb"
    "unat (count rb') = unat (count rb) + ?m"
    "ring_contents rb' = ring_contents rb @ take ?m data"
    by (auto simp: ring_write_def)
  have cle: "unat (count rb) \<le> unat (capacity rb)"
    using assms(1) by (simp add: ring_inv_def word_le_nat_alt)
  have "(word_of_nat ?m :: u32) =
          (if unat (capacity rb) - unat (count rb) < unat n then capacity rb - count rb else n)"
  proof (cases "unat (capacity rb) - unat (count rb) < unat n")
    case True
    then have "?m = unat (capacity rb) - unat (count rb)" by simp
    also have "\<dots> = unat (capacity rb - count rb)"
      using assms(1) by (simp add: ring_inv_def unat_sub)
    finally show ?thesis using True by simp
  next
    case False
    then have "?m = unat n" by simp
    then show ?thesis using False by simp
  qed
  moreover note ring_inv_wp_advance [OF assms(1) r(2,3,4,5)]
  ultimately show ?thesis using r by auto
qed

lemma ring_read_correct:
  assumes "ring_inv rb"
  shows "\<exists>rb'. ring_read rb n =
           Inr (min n (count rb), take (unat n) (ring_contents rb), rb') \<and>
         ring_inv rb' \<and> capacity rb' = capacity rb \<and> write_pos rb' = write_pos rb \<and>
         unat (read_pos rb') =
           (unat (read_pos rb) + min (unat n) (unat (count rb))) mod unat (capacity rb) \<and>
         unat (count rb') = unat (count rb) - min (unat n) (unat (count rb)) \<and>
         ring_contents rb' = drop (unat n) (ring_contents rb)"
proof -
  let ?m = "min (unat n) (unat (count rb))"
  from read_loop_correct [OF assms, of 0 n "[]" 0]
  obtain rb' where r: "ring_read rb n = Inr (word_of_nat ?m, take ?m (ring_contents rb), rb')"
    "ring_inv rb'" "capacity rb' = capacity rb" "write_pos rb' = write_pos rb"
    "unat (read_pos rb') = (unat (read_pos rb) + ?m) mod unat (capacity rb)"
    "unat (count rb') = unat (count rb) - ?m"
    "ring_contents rb' = drop ?m (ring_contents rb)"
    by (auto simp: ring_read_def)
  have "(word_of_nat ?m :: u32) = min n (count rb)"
    by (simp add: min_def word_le_nat_alt)
  moreover have "take ?m (ring_contents rb) = take (unat n) (ring_contents rb)"
    by (simp add: min_def length_ring_contents)
  moreover have "drop ?m (ring_contents rb) = drop (unat n) (ring_contents rb)"
    by (simp add: min_def length_ring_contents)
  ultimately show ?thesis using r by auto
qed

lemma ring_inv_create: "ring_inv (ring_create C)"
  by (simp add: ring_inv_def ring_create_def word_less_nat_alt unat_gt_0)

lemma ring_inv_clear: "ring_inv rb \<Longrightarrow> ring_inv (ring_clear rb)"
  by (simp add: ring_inv_def ring_clear_def word_less_nat_alt unat_gt_0)

lemma ring_step_inv:
  assumes "ring_inv rb" "op_ok opn"
  shows "\<exists>rb'. ring_step rb opn = Inr rb' \<and> ring_inv rb' \<and> capacity rb' = capacity rb"
proof (cases opn)
  case (Write data n)
  with assms ring_write_correct [of rb n data] show ?thesis by auto
next
  case (Read n)
  with assms ring_read_correct [of rb n] show ?thesis by auto
next
  case Clear
  with assms show ?thesis by (simp add: ring_inv_clear) (simp add: ring_clear_def)
qed

lemma ring_run_inv:
  assumes "ring_inv rb" "\<forall>opn \<in> set ops. op_ok opn"
  shows "\<exists>rb'. ring_run rb ops = Inr rb' \<and> ring_inv rb' \<and> capacity rb' = capacity rb"
  using assms
proof (induction ops arbitrary: rb)
  case Nil
  then show ?case by simp
next
  case (Cons opn ops)
  from ring_step_inv [of rb opn] Cons.prems
  obtain rb1 where s: "ring_step rb opn = Inr rb1" "ring_inv rb1" "capacity rb1 = capacity rb"
    by auto
  from Cons.IH [OF s(2)] Cons.prems(2) s show ?case by auto
qed

subsection \<open>Writing, then reading\<close>

definition write_ops :: "(fval list \<times> u32) list \<Rightarrow> ring_op list" where
  "write_ops ws = map (\<lambda>(data, n). Write data n) ws"

definition written_samples :: "(fval list \<times> u32) list \<Rightarrow> fval list" where
  "written_samples ws = concat (map (\<lambda>(data, n). take (unat n) data) ws)"

lemma ring_write_call:
  assumes "ring_inv rb" "unat n \<le> length data"
  shows "\<exists>written rb'. ring_write rb data n = Inr (written, rb') \<and>
           written = (if unat (capacity rb) - unat (count rb) < unat n
                      then capacity rb - count rb else n) \<and>
           count rb' = count rb + written \<and> read_pos rb' = read_pos rb \<and>
           unat (write_pos rb') = (unat (write_pos rb) + unat written) mod unat (capacity rb)"
proof -
  let ?m = "min (unat n) (unat (capacity rb) - unat (count rb))"
  let ?w = "if unat (capacity rb) - unat (count rb) < unat n then capacity rb - count rb else n"
  from ring_write_correct [OF assms]
  obtain rb' where r: "ring_write rb data n = Inr (?w, rb')" "read_pos rb' = read_pos rb"
    "unat (write_pos rb') = (unat (write_pos rb) + ?m) mod unat (capacity rb)"
    "unat (count rb') = unat (count rb) + ?m"
    by blast
  have w: "unat ?w = ?m"
    using assms(1) by (simp add: ring_inv_def unat_sub)
  have "unat (count rb') < 2 ^ LENGTH(32)" by (rule unsigned_less)
  then have "unat (count rb) + unat ?w < 2 ^ LENGTH(32)" using r(4) w by simp
  then have "unat (count rb + ?w) = unat (count rb) + unat ?w" by (simp only: unat_add_lem)
  then have "unat (count rb') = unat (count rb + ?w)" using r(4) w by simp
  then have "count rb' = count rb + ?w" by (simp only: word_unat_eq_iff)
  then show ?thesis using r w by (intro exI [of _ ?w] exI [of _ rb']) simp
qed

lemma ring_read_call:
  assumes "ring_inv rb"
  shows "\<exists>rd out rb'. ring_read rb n = Inr (rd, out, rb') \<and> rd = min n (count rb) \<and>
           count rb' = count rb - rd \<and> write_pos rb' = write_pos rb \<and>
           unat (read_pos rb') = (unat (read_pos rb) + unat rd) mod unat (capacity rb)"
proof -
  let ?m = "min (unat n) (unat (count rb))"
  from ring_read_correct [OF assms, of n]
  obtain rb' where r: "ring_read rb n = Inr (min n (count rb), take (unat n) (ring_contents rb), rb')"
    "write_pos rb' = write_pos rb"
    "unat (read_pos rb') = (unat (read_pos rb) + ?m) mod unat (capacity rb)"
    "unat (count rb') = unat (count rb) - ?m"
    by blast
  have w: "unat (min n (count rb)) = ?m" by (simp add: min_def word_le_nat_alt)
  have "min n (count rb) \<le> count rb" by simp
  then have "unat (count rb - min n (count rb)) = unat (count rb) - ?m"
    using w by (simp only: unat_sub)
  then have "unat (count rb') = unat (count rb - min n (count rb))" using r(4) by simp
  then have "count rb' = count rb - min n (count rb)" by (simp only: word_unat_eq_iff)
  then show ?thesis using r w by simp
qed

lemma ring_run_writes:
  assumes "ring_inv rb" "\<forall>(data, n) \<in> set ws. unat n \<le> length data"
    "unat (count rb) + (\<Sum>(data, n)\<leftarrow>ws. unat n) \<le> unat (capacity rb)"
  shows "\<exists>rb'. ring_run rb (write_ops ws) = Inr rb' \<and> ring_inv rb' \<and>
           capacity rb' = capacity rb \<and>
           ring_contents rb' = ring_contents rb @ written_samples ws"
  using assms
proof (induction ws arbitrary: rb)
  case Nil
  then show ?case by (simp add: write_ops_def written_samples_def)
next
  case (Cons w ws)
  obtain data n where w: "w = (data, n)" by (cases w)
  from Cons.prems w have ok: "unat n \<le> length data"
    and fit: "unat n \<le> unat (capacity rb) - unat (count rb)" by auto
  then have m: "min (unat n) (unat (capacity rb) - unat (count rb)) = unat n" by simp
  from ring_write_correct [OF Cons.prems(1) ok]
  obtain rb1 where s: "ring_step rb (Write data n) = Inr rb1" "ring_inv rb1"
    "capacity rb1 = capacity rb" "unat (count rb1) = unat (count rb) + unat n"
    "ring_contents rb1 = ring_contents rb @ take (unat n) data"
    unfolding m by auto
  have "unat (count rb1) + (\<Sum>(data, n)\<leftarrow>ws. unat n) \<le> unat (capacity rb1)"
    using Cons.prems(3) s(3,4) w by simp
  from Cons.IH [OF s(2) _ this] Cons.prems(2)
  obtain rb' where r: "ring_run rb1 (write_ops ws) = Inr rb'" "ring_inv rb'"
    "capacity rb' = capacity rb1" "ring_contents rb' = ring_contents rb1 @ written_samples ws"
    by auto
  show ?case using s r w by (simp add: write_ops_def written_samples_def)
qed

lemma ring_contents_create: "ring_contents (ring_create C) = []"
  by (simp add: ring_contents_def ring_create_def)

text \<open>
  C3. For every capacity \<open>C\<close> and every sequence of writes into a freshly created buffer
  that together pass at most \<open>C\<close> samples, reading all available samples afterwards
  returns exactly the written samples, concatenated in the order of the writes, and
  empties the buffer. (The claim asks for \<open>C \<ge> 1\<close>; the statement holds for \<open>C = 0\<close> as
  well, where every write is empty.)
\<close>

theorem ring_write_read_roundtrip:
  assumes "\<forall>(data, n) \<in> set ws. unat n \<le> length data"
    and "(\<Sum>(data, n)\<leftarrow>ws. unat n) \<le> unat C"
  shows "\<exists>rb rb'. ring_run (ring_create C) (write_ops ws) = Inr rb \<and>
           ring_read rb (ring_available rb) = Inr (ring_available rb, written_samples ws, rb') \<and>
           unat (ring_available rb) = length (written_samples ws) \<and>
           ring_available rb' = 0"
proof -
  have "unat (count (ring_create C)) + (\<Sum>(data, n)\<leftarrow>ws. unat n) \<le> unat (capacity (ring_create C))"
    using assms(2) by (simp add: ring_create_def)
  from ring_run_writes [OF ring_inv_create assms(1) this]
  obtain rb where w: "ring_run (ring_create C) (write_ops ws) = Inr rb" "ring_inv rb"
    "ring_contents rb = written_samples ws"
    by (auto simp: ring_contents_create)
  from w(3) have len: "unat (count rb) = length (written_samples ws)"
    using length_ring_contents [of rb] by simp
  from ring_read_correct [OF w(2), of "count rb"]
  obtain rb' where r: "ring_read rb (count rb) = Inr (count rb, ring_contents rb, rb')"
    "unat (count rb') = 0"
    by (auto simp: length_ring_contents)
  from r(2) have "count rb' = 0" by (simp add: unat_eq_0)
  with w r len show ?thesis by (auto simp: ring_available_def)
qed

theorem ring_write_read_roundtrip_witness:
  "\<exists>rb rb'. ring_run (ring_create 4) (write_ops [([Fin 1, Fin 2], 2), ([Fin 3, Fin 9], 1)]) = Inr rb \<and>
     ring_read rb (ring_available rb) = Inr (ring_available rb, [Fin 1, Fin 2, Fin 3], rb') \<and>
     unat (ring_available rb) = 3 \<and> ring_available rb' = 0"
  using ring_write_read_roundtrip [of "[([Fin 1, Fin 2], 2), ([Fin 3, Fin 9], 1)]" 4]
  by (simp add: written_samples_def numeral_3_eq_3)

subsection \<open>The invariant over any run of calls\<close>

text \<open>
  C4 (as amended). Every sequence of write, read and clear calls on a buffer created
  with capacity \<open>C\<close> runs without fault and leaves \<open>count \<le> C\<close>; both cursors are below
  \<open>C\<close> when \<open>C \<ge> 1\<close>, and stay 0 when \<open>C = 0\<close>. \<open>ring_available\<close> returns \<open>count\<close>, so
  never more than \<open>C\<close>. In the state reached, a write returns \<open>n\<close> if the input fits and
  the short count \<open>C - count\<close> if it would exceed the capacity, adds that number to
  \<open>count\<close> and advances the write cursor by it modulo \<open>C\<close>; a read returns
  \<open>min n count\<close>, subtracts it from \<open>count\<close> and advances the read cursor by it
  modulo \<open>C\<close>; clear resets cursors and count to 0.
\<close>

theorem ring_ops_invariant:
  assumes "\<forall>opn \<in> set ops. op_ok opn"
  shows "\<exists>rb. ring_run (ring_create C) ops = Inr rb \<and> capacity rb = C \<and> count rb \<le> C \<and>
           (if C = 0 then write_pos rb = 0 \<and> read_pos rb = 0
            else write_pos rb < C \<and> read_pos rb < C) \<and>
           ring_available rb = count rb \<and> ring_available rb \<le> C \<and>
           (\<forall>data n. unat n \<le> length data \<longrightarrow>
              (\<exists>written rb'. ring_write rb data n = Inr (written, rb') \<and>
                 written = (if unat C - unat (count rb) < unat n then C - count rb else n) \<and>
                 count rb' = count rb + written \<and> read_pos rb' = read_pos rb \<and>
                 unat (write_pos rb') = (unat (write_pos rb) + unat written) mod unat C)) \<and>
           (\<forall>n. \<exists>rd out rb'. ring_read rb n = Inr (rd, out, rb') \<and> rd = min n (count rb) \<and>
                 count rb' = count rb - rd \<and> write_pos rb' = write_pos rb \<and>
                 unat (read_pos rb') = (unat (read_pos rb) + unat rd) mod unat C) \<and>
           write_pos (ring_clear rb) = 0 \<and> read_pos (ring_clear rb) = 0 \<and>
           count (ring_clear rb) = 0"
proof -
  from ring_run_inv [OF ring_inv_create assms, of C]
  obtain rb where r: "ring_run (ring_create C) ops = Inr rb" "ring_inv rb" "capacity rb = C"
    by (auto simp: ring_create_def)
  have c: "count rb \<le> C" using r(2,3) by (simp add: ring_inv_def)
  have cur: "if C = 0 then write_pos rb = 0 \<and> read_pos rb = 0
             else write_pos rb < C \<and> read_pos rb < C"
    using r(2,3) by (auto simp: ring_inv_def)
  have w: "\<forall>data n. unat n \<le> length data \<longrightarrow>
              (\<exists>written rb'. ring_write rb data n = Inr (written, rb') \<and>
                 written = (if unat C - unat (count rb) < unat n then C - count rb else n) \<and>
                 count rb' = count rb + written \<and> read_pos rb' = read_pos rb \<and>
                 unat (write_pos rb') = (unat (write_pos rb) + unat written) mod unat C)"
    using ring_write_call [OF r(2)] unfolding r(3) by blast
  have rd: "\<forall>n. \<exists>rd out rb'. ring_read rb n = Inr (rd, out, rb') \<and> rd = min n (count rb) \<and>
                 count rb' = count rb - rd \<and> write_pos rb' = write_pos rb \<and>
                 unat (read_pos rb') = (unat (read_pos rb) + unat rd) mod unat C"
    using ring_read_call [OF r(2)] unfolding r(3) by blast
  have cl: "write_pos (ring_clear rb) = 0" "read_pos (ring_clear rb) = 0"
    "count (ring_clear rb) = 0"
    by (simp_all add: ring_clear_def)
  have av: "ring_available rb = count rb" "ring_available rb \<le> C"
    using c by (simp_all add: ring_available_def)
  note r1 = r(1) and r3 = r(3)
  show ?thesis
    by (rule exI [of _ rb], intro conjI) (fact r1 r3 c cur av w rd cl)+
qed

theorem ring_ops_invariant_witness:
  "\<exists>rb. ring_run (ring_create 2) [Write [Fin 1, Fin 2, Fin 3] 3, Read 1, Clear, Write [Fin 4] 1] = Inr rb \<and>
     count rb \<le> 2 \<and> write_pos rb < 2 \<and> read_pos rb < 2"
proof -
  have ok: "\<forall>opn \<in> set [Write [Fin 1, Fin 2, Fin 3] 3, Read 1, Clear, Write [Fin 4] 1]. op_ok opn"
    by simp
  from ring_ops_invariant [OF ok, of 2]
  obtain rb where r: "ring_run (ring_create 2) [Write [Fin 1, Fin 2, Fin 3] 3, Read 1, Clear, Write [Fin 4] 1] = Inr rb"
    "count rb \<le> 2"
    "if (2::u32) = 0 then write_pos rb = 0 \<and> read_pos rb = 0
     else write_pos rb < 2 \<and> read_pos rb < 2"
    by blast
  have "(2::u32) \<noteq> 0" by simp
  with r(3) have "write_pos rb < 2 \<and> read_pos rb < 2" by (simp only: if_False)
  with r(1,2) show ?thesis by blast
qed

text \<open>The claim as stated fails for capacity 0: the cursors of the created buffer are 0,
  which is not in the empty range \<open>[0, 0)\<close>.\<close>

theorem ring_cursor_range_counterexample:
  "ring_run (ring_create 0) [] = Inr (ring_create 0) \<and>
   \<not> write_pos (ring_create 0) < capacity (ring_create 0) \<and>
   \<not> read_pos (ring_create 0) < capacity (ring_create 0)"
  by (simp add: ring_create_def)

section \<open>Frame features and the voiced decision\<close>

text \<open>
  A C argument pair \<^verbatim>\<open>(const float* samples, uint32_t n)\<close> is the list of the cells from
  the pointer to the end of its array, and the count \<open>n\<close>; \<^verbatim>\<open>samples + offset\<close> is
  \<open>drop (unat offset) samples\<close>. A function that reads \<open>samples[0 .. n-1]\<close> faults
  when the list is shorter than \<open>n\<close>.
\<close>

text \<open>\<^verbatim>\<open>for (i = 0; i < n; ++i) { double s = samples[i]; sum += s * s; }\<close>\<close>

fun sum_squares :: "fval list \<Rightarrow> fval \<Rightarrow> fval" where
  "sum_squares [] acc = acc"
| "sum_squares (s # ss) acc = sum_squares ss (fl64 (fadd acc (fl64 (fmul s s))))"

text \<open>\<^verbatim>\<open>return static_cast<float>(std::sqrt(sum / n));\<close> The square root is correctly
  rounded (IEEE 754), and \<open>n\<close> converts to \<^verbatim>\<open>double\<close> exactly.\<close>

definition audio_rms :: "fval list \<Rightarrow> u32 \<Rightarrow> fault + fval" where
  "audio_rms samples n =
     (if n = 0 then Inr (Fin 0)
      else if length samples < unat n then Inl OutOfBounds
      else Inr (fl32 (fl64 (fsqrt
             (fl64 (fdiv (sum_squares (take (unat n) samples) (Fin 0)) (of_u32 n)))))))"

text \<open>\<^verbatim>\<open>for (i = 1; i < n; ++i) if ((samples[i] >= 0.0f) != (samples[i - 1] >= 0.0f)) crossings++;\<close>\<close>

fun count_crossings :: "fval list \<Rightarrow> u32 \<Rightarrow> u32" where
  "count_crossings (a # b # ss) crossings =
     count_crossings (b # ss)
       (if fge b (Fin 0) \<noteq> fge a (Fin 0) then crossings + 1 else crossings)"
| "count_crossings _ crossings = crossings"

text \<open>\<^verbatim>\<open>return static_cast<float>(crossings) / static_cast<float>(n - 1);\<close>\<close>

definition audio_zero_crossing_rate :: "fval list \<Rightarrow> u32 \<Rightarrow> fault + fval" where
  "audio_zero_crossing_rate samples n =
     (if n < 2 then Inr (Fin 0)
      else if length samples < unat n then Inl OutOfBounds
      else Inr (fl32 (fdiv (fl32 (of_u32 (count_crossings (take (unat n) samples) 0)))
                           (fl32 (of_u32 (n - 1))))))"

text \<open>
  \<^verbatim>\<open>if (rms < 1e-10f) return -100.0f; return 20.0f * std::log10(rms);\<close>
  The literal \<^verbatim>\<open>1e-10f\<close> is the \<^verbatim>\<open>float\<close> nearest to \<open>10\<^sup>-\<^sup>1\<^sup>0\<close>. \<^verbatim>\<open>std::log10\<close> of a
  \<^verbatim>\<open>float\<close> is the \<^verbatim>\<open>float\<close> function; it is taken to return the \<^verbatim>\<open>float\<close> nearest
  to the logarithm (the C library does not promise the last bit).
\<close>

definition audio_energy_db :: "fval list \<Rightarrow> u32 \<Rightarrow> fault + fval" where
  "audio_energy_db samples n =
     (case audio_rms samples n of
        Inl e \<Rightarrow> Inl e
      | Inr rms \<Rightarrow>
          if flt rms (fl32 (Fin (1 / 10 ^ 10))) then Inr (Fin (- 100))
          else Inr (fl32 (fmul (Fin 20) (fl32 (flog10 rms)))))"

definition vad_detect :: "fval list \<Rightarrow> u32 \<Rightarrow> fval \<Rightarrow> fval \<Rightarrow> fval \<Rightarrow> fault + int" where
  "vad_detect samples n energy_thresh zcr_low zcr_high =
     (case audio_energy_db samples n of
        Inl e \<Rightarrow> Inl e
      | Inr energy \<Rightarrow>
          if flt energy energy_thresh then Inr 0
          else (case audio_zero_crossing_rate samples n of
                  Inl e \<Rightarrow> Inl e
                | Inr zcr \<Rightarrow>
                    if flt zcr zcr_low \<or> fgt zcr zcr_high then Inr 0 else Inr 1))"

text \<open>
  \<^verbatim>\<open>vad_detect_frames\<close>: the loop
  \<^verbatim>\<open>for (offset = 0; offset + frame_size <= total_samples; offset += hop_size)\<close>
  need not end (a zero hop, or a wrapping offset), so not returning is the value \<open>None\<close>.
  The flags array is the list of the flags stored at indexes 0, 1, ...
\<close>

partial_function (option) vad_detect_frames_loop ::
  "fval list \<Rightarrow> u32 \<Rightarrow> u32 \<Rightarrow> u32 \<Rightarrow> fval \<Rightarrow> fval \<Rightarrow> fval \<Rightarrow> u32 \<Rightarrow> u32 \<Rightarrow> int list
     \<Rightarrow> (fault + (u32 \<times> int list)) option" where
  "vad_detect_frames_loop samples total_samples frame_size hop_size
       energy_thresh zcr_low zcr_high offset num_frames out_flags =
     (if offset + frame_size \<le> total_samples then
        (case vad_detect (drop (unat offset) samples) frame_size energy_thresh zcr_low zcr_high of
           Inl e \<Rightarrow> Some (Inl e)
         | Inr flag \<Rightarrow>
             vad_detect_frames_loop samples total_samples frame_size hop_size
               energy_thresh zcr_low zcr_high (offset + hop_size) (num_frames + 1)
               (out_flags @ [flag]))
      else Some (Inr (num_frames, out_flags)))"

definition vad_detect_frames ::
  "fval list \<Rightarrow> u32 \<Rightarrow> u32 \<Rightarrow> u32 \<Rightarrow> fval \<Rightarrow> fval \<Rightarrow> fval \<Rightarrow> (fault + (u32 \<times> int list)) option" where
  "vad_detect_frames samples total_samples frame_size hop_size energy_thresh zcr_low zcr_high =
     vad_detect_frames_loop samples total_samples frame_size hop_size
       energy_thresh zcr_low zcr_high 0 0 []"

subsection \<open>Energy\<close>









lemma sum_squares_zero: "\<forall>s \<in> set ss. s = Fin 0 \<Longrightarrow> sum_squares ss (Fin 0) = Fin 0"
  by (induction ss) (simp_all add: fl64_0)

lemma unat_u32_pos: "(n::u32) \<noteq> 0 \<Longrightarrow> 0 < unat n"
  by (simp add: unat_gt_0)

lemma audio_rms_zero:
  assumes "unat n \<le> length samples" "\<forall>s \<in> set (take (unat n) samples). s = Fin 0"
  shows "audio_rms samples n = Inr (Fin 0)"
  using assms
  by (simp add: audio_rms_def sum_squares_zero of_u32_def unsigned_eq_0_iff fl64_0 fl32_0)

lemma audio_rms_total:
  "unat n \<le> length samples \<Longrightarrow> \<exists>rms. audio_rms samples n = Inr rms"
  by (simp add: audio_rms_def)

lemma energy_db_rms_0:
  assumes "audio_rms samples n = Inr (Fin 0)"
  shows "audio_energy_db samples n = Inr (Fin (- 100))"
proof -
  have "flt (Fin 0) (fl32 (Fin (1 / 10 ^ 10)))" by (simp only: float_1e_10 flt.simps) simp
  then show ?thesis by (simp only: audio_energy_db_def assms sum.case if_True)
qed




lemma fl32_numeral: "(numeral k :: nat) < 2 ^ 24 \<Longrightarrow> fl32 (Fin (numeral k)) = Fin (numeral k)"
  using fl32_of_nat [of "numeral k"] by simp





subsection \<open>Zero-crossing rate\<close>

text \<open>The sign of a sample as the code tests it (\<^verbatim>\<open>s >= 0.0f\<close>), and the number of
  adjacent pairs of a frame whose signs differ.\<close>

definition nonneg :: "fval \<Rightarrow> bool" where
  "nonneg s = fge s (Fin 0)"

definition sign_changes :: "fval list \<Rightarrow> nat" where
  "sign_changes xs =
     length (filter (\<lambda>i. nonneg (xs ! i) \<noteq> nonneg (xs ! (i - 1))) [1..<length xs])"

lemma sign_changes_short [simp]: "sign_changes [] = 0" "sign_changes [a] = 0"
  by (simp_all add: sign_changes_def)

lemma sign_changes_Cons2:
  "sign_changes (a # b # ss) = (if nonneg b \<noteq> nonneg a then 1 else 0) + sign_changes (b # ss)"
proof -
  let ?P = "\<lambda>xs i. nonneg (xs ! i) \<noteq> nonneg (xs ! (i - 1))"
  have up: "[1..<length (a # b # ss)] = 1 # map Suc [1..<length (b # ss)]"
    by (simp add: upt_conv_Cons map_Suc_upt del: upt_Suc)
  have "filter (?P (a # b # ss)) (map Suc [1..<length (b # ss)]) =
        map Suc (filter (?P (b # ss)) [1..<length (b # ss)])"
    unfolding filter_map o_def
    by (rule arg_cong [where f = "map Suc"], rule filter_cong) (auto simp: nth_Cons')
  then show ?thesis
    unfolding sign_changes_def up by simp
qed

lemma sign_changes_le: "sign_changes xs \<le> length xs - 1"
proof -
  have "sign_changes xs \<le> length [1..<length xs]"
    unfolding sign_changes_def by (rule length_filter_le)
  then show ?thesis by simp
qed

lemma count_crossings_unat:
  "unat crossings + length xs \<le> 2 ^ 32 \<Longrightarrow>
   unat (count_crossings xs crossings) = unat crossings + sign_changes xs"
proof (induction xs crossings rule: count_crossings.induct)
  case (1 a b ss crossings)
  let ?c = "if fge b (Fin 0) \<noteq> fge a (Fin 0) then crossings + 1 else crossings"
  have lt: "unat crossings + unat (1::u32) < 2 ^ LENGTH(32)" using "1.prems" by simp
  then have "unat (crossings + 1) = unat crossings + unat (1::u32)"
    by (simp only: unat_add_lem)
  then have c: "unat ?c = unat crossings + (if nonneg b \<noteq> nonneg a then 1 else 0)"
    by (simp add: nonneg_def)
  then have "unat ?c + length (b # ss) \<le> 2 ^ 32" using "1.prems" by simp
  from "1.IH" [OF this] c show ?case by (simp add: sign_changes_Cons2)
qed simp_all

lemma sign_changes_const:
  assumes "\<forall>i<length xs. \<forall>j<length xs. nonneg (xs ! i) = nonneg (xs ! j)"
  shows "sign_changes xs = 0"
proof -
  have "\<forall>i \<in> set [1..<length xs]. \<not> nonneg (xs ! i) \<noteq> nonneg (xs ! (i - 1))"
  proof
    fix i
    assume "i \<in> set [1..<length xs]"
    then have "i < length xs" "i - 1 < length xs" by auto
    with assms show "\<not> nonneg (xs ! i) \<noteq> nonneg (xs ! (i - 1))" by blast
  qed
  then have "filter (\<lambda>i. nonneg (xs ! i) \<noteq> nonneg (xs ! (i - 1))) [1..<length xs] = []"
    by (simp only: filter_empty_conv)
  then show ?thesis by (simp only: sign_changes_def list.size)
qed

lemma sign_changes_alternating:
  assumes "\<forall>i. 1 \<le> i \<and> i < length xs \<longrightarrow> nonneg (xs ! i) \<noteq> nonneg (xs ! (i - 1))"
  shows "sign_changes xs = length xs - 1"
proof -
  have "\<forall>i \<in> set [1..<length xs]. nonneg (xs ! i) \<noteq> nonneg (xs ! (i - 1))"
  proof
    fix i
    assume "i \<in> set [1..<length xs]"
    then have "1 \<le> i \<and> i < length xs" by simp
    with assms show "nonneg (xs ! i) \<noteq> nonneg (xs ! (i - 1))" by blast
  qed
  then have "filter (\<lambda>i. nonneg (xs ! i) \<noteq> nonneg (xs ! (i - 1))) [1..<length xs] = [1..<length xs]"
    by (simp only: filter_id_conv)
  then have "sign_changes xs = length [1..<length xs]" by (simp only: sign_changes_def)
  then show ?thesis by simp
qed

text \<open>The \<^verbatim>\<open>float\<close> of a counter: it is exact below \<open>2\<^sup>2\<^sup>4\<close>, never overflows, and is at least 1
  for a counter that is not 0.\<close>

lemma fl32_counter:
  assumes "1 \<le> m" "m < 2 ^ 32"
  shows "\<exists>y. fl32 (Fin (real m)) = Fin y \<and> y = rnd 24 (- 126) (real m) \<and> 1 \<le> y"
proof -
  have x0: "0 < real m" using assms(1) by simp
  have "(2::real) powi 0 \<le> real m" using assms(1) by simp
  then have lo: "2 powi 0 \<le> rnd 24 (- 126) (real m)" by (intro rnd_lower) simp_all
  have "real m < real (2 ^ 32)" using assms(2) by (simp only: of_nat_less_iff)
  then have lt: "real m < 2 powi 32" by simp
  then have "\<lfloor>log 2 (real m)\<rfloor> < 32" using x0 by (intro floor_log2_less)
  then have "max \<lfloor>log 2 (real m)\<rfloor> (- 126) \<le> 31" by simp
  moreover have "real m \<le> 2 powi (31 + 1)" using lt by simp
  ultimately have "rnd 24 (- 126) (real m) \<le> 2 powi (31 + 1)"
    using x0 by (intro rnd_upper) simp_all
  then have "\<bar>rnd 24 (- 126) (real m)\<bar> < 2 powi (127 + 1)" using lo by simp
  then have "fl32 (Fin (real m)) = Fin (rnd 24 (- 126) (real m))"
    by (simp add: fl32_def round_to_def Let_def)
  then show ?thesis using lo by simp
qed

text \<open>The \<^verbatim>\<open>float\<close> of a value in \<open>[0, 1]\<close> is in \<open>[0, 1]\<close>.\<close>

lemma fl32_unit_interval:
  assumes "0 \<le> t" "t \<le> 1"
  shows "\<exists>q. fl32 (Fin t) = Fin q \<and> 0 \<le> q \<and> q \<le> 1"
proof -
  have "rnd 24 (- 126) t \<le> rnd 24 (- 126) 1" using assms by (intro rnd_mono_nonneg) simp_all
  moreover have "rnd 24 (- 126) 1 = 1" using rnd_of_nat [of 1 24 "- 126"] by simp
  moreover have "0 \<le> rnd 24 (- 126) t" using assms(1) by (rule rnd_nonneg)
  ultimately have b: "0 \<le> rnd 24 (- 126) t" "rnd 24 (- 126) t \<le> 1" by simp_all
  then have "\<bar>rnd 24 (- 126) t\<bar> < 2 powi (127 + 1)" by simp
  then have "fl32 (Fin t) = Fin (rnd 24 (- 126) t)"
    by (simp add: fl32_def round_to_def Let_def)
  then show ?thesis using b by simp
qed

lemma float_quotient_range:
  assumes "c \<le> m" "1 \<le> m" "m < 2 ^ 32"
  shows "\<exists>q. fl32 (fdiv (fl32 (Fin (real c))) (fl32 (Fin (real m)))) = Fin q \<and> 0 \<le> q \<and> q \<le> 1"
proof -
  obtain ym where ym: "fl32 (Fin (real m)) = Fin ym" "ym = rnd 24 (- 126) (real m)" "1 \<le> ym"
    using fl32_counter [OF assms(2,3)] by blast
  show ?thesis
  proof (cases "c = 0")
    case True
    then show ?thesis using ym by (simp add: fl32_0)
  next
    case False
    then have c1: "1 \<le> c" by simp
    have "c < 2 ^ 32" using assms(1,3) by simp
    from fl32_counter [OF c1 this]
    obtain yc where yc: "fl32 (Fin (real c)) = Fin yc" "yc = rnd 24 (- 126) (real c)" "1 \<le> yc"
      by blast
    have "yc \<le> ym" unfolding yc(2) ym(2) using assms(1) c1 by (intro rnd_mono_pos) simp_all
    then have "0 \<le> yc / ym" "yc / ym \<le> 1" using yc(3) ym(3) by simp_all
    from fl32_unit_interval [OF this] show ?thesis using yc(1) ym(1) ym(3) by simp
  qed
qed

lemma float_quotient_zero:
  assumes "1 \<le> m" "m < 2 ^ 32"
  shows "fl32 (fdiv (fl32 (Fin 0)) (fl32 (Fin (real m)))) = Fin 0"
  using fl32_counter [OF assms] by (auto simp: fl32_0)

lemma float_quotient_one:
  assumes "1 \<le> m" "m < 2 ^ 32"
  shows "fl32 (fdiv (fl32 (Fin (real m))) (fl32 (Fin (real m)))) = Fin 1"
  using fl32_counter [OF assms] by (auto simp: fl32_1)

lemma float_quotient_small:
  assumes "c \<le> m" "1 \<le> m" "m < 2 ^ 24"
  shows "fl32 (fdiv (fl32 (Fin (real c))) (fl32 (Fin (real m)))) = fl32 (Fin (real c / real m))"
proof -
  have "c < 2 ^ 24" using assms by simp
  then show ?thesis using assms by (simp add: fl32_of_nat)
qed

lemma zcr_value:
  assumes "2 \<le> n" "unat n \<le> length samples"
  shows "audio_zero_crossing_rate samples n =
           Inr (fl32 (fdiv (fl32 (Fin (real (sign_changes (take (unat n) samples)))))
                           (fl32 (Fin (real (unat n - 1))))))"
proof -
  from assms(1) have n2: "2 \<le> unat n" by (simp add: word_le_nat_alt)
  have "unat n < 2 ^ 32" using unsigned_less [of n] by simp
  then have "unat (0::u32) + length (take (unat n) samples) \<le> 2 ^ 32" by simp
  from count_crossings_unat [OF this]
  have c: "unat (count_crossings (take (unat n) samples) 0) = sign_changes (take (unat n) samples)"
    by simp
  have "(1::u32) \<le> n" using n2 by (simp add: word_le_nat_alt)
  then have m: "unat (n - 1) = unat n - 1" by (simp add: unat_sub)
  have "\<not> n < 2" using assms(1) by simp
  then show ?thesis
    using assms(2)
    by (simp add: audio_zero_crossing_rate_def of_u32_def c m del: of_nat_unat)
qed

text \<open>
  C6. \<open>audio_zero_crossing_rate\<close> returns 0 for every frame shorter than 2 samples. For a
  frame of \<open>n \<ge> 2\<close> samples it returns the \<^verbatim>\<open>float\<close> quotient of the number of adjacent
  pairs whose signs differ (the sign of \<open>s\<close> being whether \<open>s \<ge> 0\<close>) and the number
  \<open>n - 1\<close> of adjacent pairs, both converted to \<^verbatim>\<open>float\<close>; for \<open>n \<le> 2\<^sup>2\<^sup>4\<close> this is the
  fraction of such pairs rounded to \<^verbatim>\<open>float\<close>. The value lies in \<open>[0, 1]\<close>. It is 0 for
  a frame of constant sign and exactly 1 for a frame of \<open>n \<ge> 2\<close> samples whose sign
  alternates strictly.
\<close>

theorem zero_crossing_rate_fraction:
  "(n < 2 \<longrightarrow> audio_zero_crossing_rate samples n = Inr (Fin 0)) \<and>
   (2 \<le> n \<and> unat n \<le> length samples \<longrightarrow>
      audio_zero_crossing_rate samples n =
        Inr (fl32 (fdiv (fl32 (Fin (real (sign_changes (take (unat n) samples)))))
                        (fl32 (Fin (real (unat n - 1)))))) \<and>
      (unat n \<le> 2 ^ 24 \<longrightarrow>
         audio_zero_crossing_rate samples n =
           Inr (fl32 (Fin (real (sign_changes (take (unat n) samples)) / real (unat n - 1))))) \<and>
      (\<exists>q. audio_zero_crossing_rate samples n = Inr (Fin q) \<and> 0 \<le> q \<and> q \<le> 1)) \<and>
   (unat n \<le> length samples \<and>
    (\<forall>i<unat n. \<forall>j<unat n. nonneg (samples ! i) = nonneg (samples ! j)) \<longrightarrow>
      audio_zero_crossing_rate samples n = Inr (Fin 0)) \<and>
   (2 \<le> n \<and> unat n \<le> length samples \<and>
    (\<forall>i. 1 \<le> i \<and> i < unat n \<longrightarrow> nonneg (samples ! i) \<noteq> nonneg (samples ! (i - 1))) \<longrightarrow>
      audio_zero_crossing_rate samples n = Inr (Fin 1))"
proof (intro conjI impI)
  assume "n < 2"
  then show "audio_zero_crossing_rate samples n = Inr (Fin 0)"
    by (simp add: audio_zero_crossing_rate_def)
next
  assume a: "2 \<le> n \<and> unat n \<le> length samples"
  then have n2: "2 \<le> unat n" by (simp add: word_le_nat_alt)
  have n32: "unat n < 2 ^ 32" by (rule unat_lt_u32)
  have sc: "sign_changes (take (unat n) samples) \<le> unat n - 1"
    using sign_changes_le [of "take (unat n) samples"] a by simp
  from a show v: "audio_zero_crossing_rate samples n =
        Inr (fl32 (fdiv (fl32 (Fin (real (sign_changes (take (unat n) samples)))))
                        (fl32 (Fin (real (unat n - 1))))))"
    by (simp only: zcr_value)
  show "\<exists>q. audio_zero_crossing_rate samples n = Inr (Fin q) \<and> 0 \<le> q \<and> q \<le> 1"
    using float_quotient_range [OF sc, of ] n2 n32 by (simp only: v) auto
  show "audio_zero_crossing_rate samples n =
           Inr (fl32 (Fin (real (sign_changes (take (unat n) samples)) / real (unat n - 1))))"
    if "unat n \<le> 2 ^ 24"
  proof -
    have "1 \<le> unat n - 1" "unat n - 1 < 2 ^ 24" using n2 that by simp_all
    from float_quotient_small [OF sc this] show ?thesis by (simp only: v)
  qed
next
  assume a: "unat n \<le> length samples \<and>
    (\<forall>i<unat n. \<forall>j<unat n. nonneg (samples ! i) = nonneg (samples ! j))"
  have c: "sign_changes (take (unat n) samples) = 0"
  proof (rule sign_changes_const, intro allI impI)
    fix i j
    assume "i < length (take (unat n) samples)" "j < length (take (unat n) samples)"
    then have ij: "i < unat n" "j < unat n" by simp_all
    with a have "nonneg (samples ! i) = nonneg (samples ! j)" by blast
    with ij show "nonneg (take (unat n) samples ! i) = nonneg (take (unat n) samples ! j)"
      by simp
  qed
  from a have len: "unat n \<le> length samples" by blast
  show "audio_zero_crossing_rate samples n = Inr (Fin 0)"
  proof (cases "n < 2")
    case True
    then show ?thesis by (simp add: audio_zero_crossing_rate_def)
  next
    case False
    then have n2w: "2 \<le> n" by (simp add: not_less)
    then have "1 \<le> unat n - 1" by (simp add: word_le_nat_alt)
    moreover have "unat n - 1 < 2 ^ 32" using unat_lt_u32 [of n] by linarith
    ultimately have "fl32 (fdiv (fl32 (Fin (real 0))) (fl32 (Fin (real (unat n - 1))))) = Fin 0"
      using float_quotient_zero [of "unat n - 1"] by simp
    then show ?thesis by (simp only: zcr_value [OF n2w len] c)
  qed
next
  assume a: "2 \<le> n \<and> unat n \<le> length samples \<and>
    (\<forall>i. 1 \<le> i \<and> i < unat n \<longrightarrow> nonneg (samples ! i) \<noteq> nonneg (samples ! (i - 1)))"
  then have n2w: "2 \<le> n" and len: "unat n \<le> length samples" by blast+
  from n2w have n2: "2 \<le> unat n" by (simp add: word_le_nat_alt)
  have "sign_changes (take (unat n) samples) = length (take (unat n) samples) - 1"
  proof (rule sign_changes_alternating, intro allI impI)
    fix i
    assume "1 \<le> i \<and> i < length (take (unat n) samples)"
    then have i: "1 \<le> i" "i < unat n" by simp_all
    with a have "nonneg (samples ! i) \<noteq> nonneg (samples ! (i - 1))" by blast
    with i show "nonneg (take (unat n) samples ! i) \<noteq> nonneg (take (unat n) samples ! (i - 1))"
      by simp
  qed
  then have c: "sign_changes (take (unat n) samples) = unat n - 1" using len by simp
  have "1 \<le> unat n - 1" using n2 by simp
  moreover have "unat n - 1 < 2 ^ 32" using unat_lt_u32 [of n] by linarith
  ultimately have
    "fl32 (fdiv (fl32 (Fin (real (unat n - 1)))) (fl32 (Fin (real (unat n - 1))))) = Fin 1"
    by (rule float_quotient_one)
  then show "audio_zero_crossing_rate samples n = Inr (Fin 1)"
    by (simp only: zcr_value [OF n2w len] c)
qed

theorem zero_crossing_rate_fraction_witness:
  "audio_zero_crossing_rate [Fin 1, Fin (- 1), Fin 1, Fin (- 1)] 4 = Inr (Fin 1)"
proof -
  let ?xs = "[Fin 1, Fin (- 1), Fin 1, Fin (- 1)]"
  have u: "unat (4::u32) = 4" by simp
  have alt: "\<forall>i. 1 \<le> i \<and> i < unat (4::u32) \<longrightarrow> nonneg (?xs ! i) \<noteq> nonneg (?xs ! (i - 1))"
  proof (intro allI impI)
    fix i :: nat
    assume "1 \<le> i \<and> i < unat (4::u32)"
    then have "i = 1 \<or> i = 2 \<or> i = 3" unfolding u by arith
    then show "nonneg (?xs ! i) \<noteq> nonneg (?xs ! (i - 1))"
      by (elim disjE) (simp_all add: nonneg_def fge_def)
  qed
  have h1: "2 \<le> (4::u32)" by simp
  have h2: "unat (4::u32) \<le> length ?xs" by simp
  from h1 h2 alt
  have h: "2 \<le> (4::u32) \<and> unat (4::u32) \<le> length ?xs \<and>
      (\<forall>i. 1 \<le> i \<and> i < unat (4::u32) \<longrightarrow> nonneg (?xs ! i) \<noteq> nonneg (?xs ! (i - 1)))"
    by (intro conjI)
  from zero_crossing_rate_fraction [of 4 ?xs]
  have "2 \<le> (4::u32) \<and> unat (4::u32) \<le> length ?xs \<and>
      (\<forall>i. 1 \<le> i \<and> i < unat (4::u32) \<longrightarrow> nonneg (?xs ! i) \<noteq> nonneg (?xs ! (i - 1))) \<longrightarrow>
      audio_zero_crossing_rate ?xs 4 = Inr (Fin 1)"
    by (elim conjE)
  with h show ?thesis by (rule rev_mp)
qed

text \<open>
  Two of the three adjacent pairs of \<open>[1, -1, -1, 1]\<close> differ in sign, and the rate
  returned is the \<^verbatim>\<open>float\<close> nearest to \<open>2/3\<close>, not \<open>2/3\<close>.
\<close>

lemma fl32_two_thirds: "fl32 (Fin (2 / 3)) = Fin (11184811 / 16777216)"
proof -
  have "rnd 24 (- 126) (2 / 3) = 11184811 / 16777216"
    using rnd_normal [of "- 1" "2 / 3" "- 126" 24]
    by (simp add: round_half_even_def Let_def)
  then show ?thesis by (simp add: fl32_def round_to_def Let_def)
qed

theorem zero_crossing_rate_rounding_counterexample:
  "sign_changes [Fin 1, Fin (- 1), Fin (- 1), Fin 1] = 2 \<and>
   audio_zero_crossing_rate [Fin 1, Fin (- 1), Fin (- 1), Fin 1] 4
     = Inr (Fin (11184811 / 16777216)) \<and>
   audio_zero_crossing_rate [Fin 1, Fin (- 1), Fin (- 1), Fin 1] 4 \<noteq> Inr (Fin (2 / 3))"
proof -
  have s: "sign_changes [Fin 1, Fin (- 1), Fin (- 1), Fin 1] = 2"
    by (simp add: sign_changes_Cons2 nonneg_def fge_def)
  have u: "unat ((4::u32) - 1) = 3" by simp
  have c: "count_crossings [Fin 1, Fin (- 1), Fin (- 1), Fin 1] 0 = 2"
    by (simp add: fge_def)
  have "audio_zero_crossing_rate [Fin 1, Fin (- 1), Fin (- 1), Fin 1] 4
      = Inr (fl32 (fdiv (fl32 (Fin 2)) (fl32 (Fin 3))))"
    by (simp add: audio_zero_crossing_rate_def of_u32_def fge_def)
  then have v: "audio_zero_crossing_rate [Fin 1, Fin (- 1), Fin (- 1), Fin 1] 4
      = Inr (Fin (11184811 / 16777216))"
    using fl32_two_thirds by (simp add: fl32_numeral)
  show ?thesis using s v by simp
qed

subsection \<open>The voiced decision\<close>

lemma energy_total:
  "unat n \<le> length samples \<Longrightarrow> \<exists>e. audio_energy_db samples n = Inr e"
  by (auto simp: audio_energy_db_def audio_rms_def)

lemma zcr_fin:
  assumes "unat n \<le> length samples"
  shows "\<exists>z. audio_zero_crossing_rate samples n = Inr (Fin z) \<and> 0 \<le> z \<and> z \<le> 1"
proof (cases "n < 2")
  case True
  then show ?thesis by (simp add: audio_zero_crossing_rate_def)
next
  case False
  then have n2w: "2 \<le> n" by (simp add: not_less)
  then have n2: "2 \<le> unat n" by (simp add: word_le_nat_alt)
  have "sign_changes (take (unat n) samples) \<le> unat n - 1"
    using sign_changes_le [of "take (unat n) samples"] assms by simp
  moreover have "1 \<le> unat n - 1" using n2 by simp
  moreover have "unat n - 1 < 2 ^ 32" using unat_lt_u32 [of n] by linarith
  ultimately have "\<exists>q. fl32 (fdiv (fl32 (Fin (real (sign_changes (take (unat n) samples)))))
      (fl32 (Fin (real (unat n - 1))))) = Fin q \<and> 0 \<le> q \<and> q \<le> 1"
    by (rule float_quotient_range)
  then show ?thesis by (simp only: zcr_value [OF n2w assms] sum.inject)
qed

text \<open>
  The code returns 0 when \<^verbatim>\<open>energy < energy_thresh\<close>, or \<^verbatim>\<open>zcr < zcr_low\<close>, or
  \<^verbatim>\<open>zcr > zcr_high\<close>, and 1 otherwise. When neither the energy nor a threshold is \<open>NaN\<close>
  these negated tests are the rule \<open>energy \<ge> energy_thresh\<close> and
  \<open>zcr_low \<le> zcr \<le> zcr_high\<close>.
\<close>

lemma vad_detect_rule:
  assumes "unat n \<le> length samples"
  shows "\<exists>energy zcr.
           audio_energy_db samples n = Inr energy \<and>
           audio_zero_crossing_rate samples n = Inr zcr \<and>
           vad_detect samples n energy_thresh zcr_low zcr_high =
             Inr (if flt energy energy_thresh \<or> flt zcr zcr_low \<or> fgt zcr zcr_high then 0 else 1) \<and>
           (energy \<noteq> NaN \<and> energy_thresh \<noteq> NaN \<and> zcr_low \<noteq> NaN \<and> zcr_high \<noteq> NaN \<longrightarrow>
              vad_detect samples n energy_thresh zcr_low zcr_high =
                Inr (if fge energy energy_thresh \<and> fle zcr_low zcr \<and> fle zcr zcr_high
                     then 1 else 0))"
proof -
  from energy_total [OF assms] obtain e where e: "audio_energy_db samples n = Inr e" by blast
  from zcr_fin [OF assms] obtain z where z: "audio_zero_crossing_rate samples n = Inr (Fin z)"
    by blast
  have v: "vad_detect samples n energy_thresh zcr_low zcr_high =
             Inr (if flt e energy_thresh \<or> flt (Fin z) zcr_low \<or> fgt (Fin z) zcr_high then 0 else 1)"
    by (simp add: vad_detect_def e z)
  have d: "e \<noteq> NaN \<and> energy_thresh \<noteq> NaN \<and> zcr_low \<noteq> NaN \<and> zcr_high \<noteq> NaN \<longrightarrow>
              vad_detect samples n energy_thresh zcr_low zcr_high =
                Inr (if fge e energy_thresh \<and> fle zcr_low (Fin z) \<and> fle (Fin z) zcr_high
                     then 1 else 0)"
    unfolding v
    by (cases e; cases energy_thresh; cases zcr_low; cases zcr_high)
       (auto simp: fge_def fgt_def)
  from e z v d show ?thesis by blast
qed

lemma vad_detect_total:
  assumes "unat n \<le> length samples"
  shows "\<exists>flag. vad_detect samples n energy_thresh zcr_low zcr_high = Inr flag"
  using vad_detect_rule [OF assms, of energy_thresh zcr_low zcr_high] by blast

text \<open>
  C2. \<open>vad_detect\<close> is specified to return voiced (1) if and only if
  \<open>energy \<ge> energy_thresh\<close> and \<open>zcr_low \<le> zcr \<le> zcr_high\<close>. On the frame of the one
  sample \<open>NaN\<close>, with the thresholds \<open>-35\<close>, \<open>0\<close> and \<open>1\<close>, the energy is \<open>NaN\<close>, so
  \<open>energy \<ge> energy_thresh\<close> does not hold; but the code tests the negation
  \<^verbatim>\<open>energy < energy_thresh\<close>, which is false too, and returns 1. (The gate of
  \<^verbatim>\<open>find_voiced_segments\<close>, \<^verbatim>\<open>e >= energy_thresh\<close>, rejects the same frame.)
\<close>

theorem vad_detect_nan_voiced:
  "audio_energy_db [NaN] 1 = Inr NaN \<and>
   audio_zero_crossing_rate [NaN] 1 = Inr (Fin 0) \<and>
   \<not> fge NaN (Fin (- 35)) \<and> fle (Fin 0) (Fin 0) \<and> fle (Fin 0) (Fin 1) \<and>
   vad_detect [NaN] 1 (Fin (- 35)) (Fin 0) (Fin 1) = Inr 1"
  by (simp add: vad_detect_def audio_energy_db_def audio_rms_def audio_zero_crossing_rate_def
      of_u32_def fge_def fgt_def fl32_def fl64_def)

section \<open>Signal conditioning\<close>

text \<open>
  \<^verbatim>\<open>audio_preemphasis\<close> works in place; the model returns the array after the call. The
  loop is \<^verbatim>\<open>for (i = n - 1; i >= 1; --i) samples[i] = samples[i] - coeff * samples[i - 1];\<close>
  and the last statement \<^verbatim>\<open>samples[0] = samples[0] * (1.0f - coeff)\<close>. Every operation
  is a \<^verbatim>\<open>float\<close> operation, rounded on its own.
\<close>

lemma u32_pred_less: "(1::u32) \<le> i \<Longrightarrow> unat (i - 1) < unat i"
  by (simp add: unat_sub word_le_nat_alt)

function preemphasis_loop :: "fval list \<Rightarrow> fval \<Rightarrow> u32 \<Rightarrow> fault + fval list" where
  "preemphasis_loop samples coeff i =
     (if 1 \<le> i then
        (if length samples \<le> unat i then Inl OutOfBounds
         else preemphasis_loop
                (samples[unat i :=
                   fl32 (fsub (samples ! unat i) (fl32 (fmul coeff (samples ! unat (i - 1)))))])
                coeff (i - 1))
      else Inr samples)"
  by pat_completeness auto
termination
  by (relation "measure (\<lambda>(samples, coeff, i). unat i)") (auto simp: u32_pred_less)

declare preemphasis_loop.simps [simp del]

definition audio_preemphasis :: "fval list \<Rightarrow> u32 \<Rightarrow> fval \<Rightarrow> fault + fval list" where
  "audio_preemphasis samples n coeff =
     (if n < 2 then Inr samples
      else (case preemphasis_loop samples coeff (n - 1) of
              Inl e \<Rightarrow> Inl e
            | Inr s \<Rightarrow>
                if s = [] then Inl OutOfBounds
                else Inr (s[0 := fl32 (fmul (s ! 0) (fl32 (fsub (Fin 1) coeff)))])))"

lemma preemphasis_loop_correct:
  assumes "unat i < length xs"
  shows "\<exists>ys. preemphasis_loop xs c i = Inr ys \<and> length ys = length xs \<and>
           (\<forall>k. 1 \<le> k \<and> k \<le> unat i \<longrightarrow> ys ! k = fl32 (fsub (xs ! k) (fl32 (fmul c (xs ! (k - 1)))))) \<and>
           (\<forall>k. k = 0 \<or> unat i < k \<longrightarrow> ys ! k = xs ! k)"
  using assms
proof (induction xs c i rule: preemphasis_loop.induct)
  case (1 xs c i)
  show ?case
  proof (cases "1 \<le> i")
    case False
    then have "unat i = 0" by (simp add: word_le_nat_alt)
    with False show ?thesis by (subst preemphasis_loop.simps) simp
  next
    case True
    let ?v = "fl32 (fsub (xs ! unat i) (fl32 (fmul c (xs ! unat (i - 1)))))"
    let ?xs1 = "xs[unat i := ?v]"
    from True have p: "unat (i - 1) = unat i - 1" "1 \<le> unat i"
      by (simp_all add: unat_sub word_le_nat_alt)
    have nb: "\<not> length xs \<le> unat i" using "1.prems" by simp
    have "unat (i - 1) < length ?xs1" using "1.prems" p by simp
    from "1.IH" [OF True nb this]
    obtain ys where r: "preemphasis_loop ?xs1 c (i - 1) = Inr ys" "length ys = length ?xs1"
      "\<forall>k. 1 \<le> k \<and> k \<le> unat (i - 1) \<longrightarrow> ys ! k = fl32 (fsub (?xs1 ! k) (fl32 (fmul c (?xs1 ! (k - 1)))))"
      "\<forall>k. k = 0 \<or> unat (i - 1) < k \<longrightarrow> ys ! k = ?xs1 ! k"
      by blast
    have a: "preemphasis_loop xs c i = Inr ys"
      using True nb r(1) by (subst preemphasis_loop.simps) simp
    have b: "length ys = length xs" using r(2) by simp
    have c1: "ys ! k = fl32 (fsub (xs ! k) (fl32 (fmul c (xs ! (k - 1)))))" if k: "1 \<le> k \<and> k \<le> unat i" for k
    proof (cases "k = unat i")
      case True
      then have "unat (i - 1) < k" using p by simp
      with r(4) have "ys ! k = ?xs1 ! k" by blast
      then show ?thesis using True "1.prems" p by simp
    next
      case False
      with k p have lt: "1 \<le> k \<and> k \<le> unat (i - 1)" by auto
      with r(3) have "ys ! k = fl32 (fsub (?xs1 ! k) (fl32 (fmul c (?xs1 ! (k - 1)))))" by blast
      moreover have "k \<noteq> unat i" "k - 1 \<noteq> unat i" using lt p by auto
      ultimately show ?thesis by simp
    qed
    have c2: "ys ! k = xs ! k" if k: "k = 0 \<or> unat i < k" for k
    proof -
      from k p have "k = 0 \<or> unat (i - 1) < k" by auto
      with r(4) have "ys ! k = ?xs1 ! k" by blast
      moreover have "k \<noteq> unat i" using k p by auto
      ultimately show ?thesis by simp
    qed
    from a b c1 c2 show ?thesis by blast
  qed
qed

lemma fmul_zero_fin: "is_fin s \<Longrightarrow> fmul (Fin 0) s = Fin 0"
  by (cases s) (simp_all add: is_fin_def)

lemma fsub_zero: "fsub s (Fin 0) = s"
  by (cases s) simp_all

lemma fmul_one: "fmul s (Fin 1) = s"
  by (cases s) simp_all

text \<open>
  C9 (as amended). For every array \<open>x\<close> of \<open>n \<ge> 2\<close> samples and every coefficient,
  \<open>audio_preemphasis\<close> replaces the contents by \<open>y[0] = x[0] * (1 - coeff)\<close> and
  \<open>y[i] = x[i] - coeff * x[i-1]\<close> for \<open>1 \<le> i < n\<close>, where \<open>x\<close> is the original contents
  and each difference and product is a \<^verbatim>\<open>float\<close> operation (rounded to \<^verbatim>\<open>float\<close>, with
  the IEEE rules for overflow, the infinities and \<open>NaN\<close>), and leaves the cells from \<open>n\<close>
  on unchanged; it changes nothing when \<open>n < 2\<close>; and with \<open>coeff = 0\<close> it is the identity
  on every array of \<^verbatim>\<open>float\<close> values whose samples before the last of the \<open>n\<close> are finite.
\<close>

theorem audio_preemphasis_formula:
  "(n < 2 \<longrightarrow> audio_preemphasis x n coeff = Inr x) \<and>
   (2 \<le> n \<and> unat n \<le> length x \<longrightarrow>
      (\<exists>y. audio_preemphasis x n coeff = Inr y \<and> length y = length x \<and>
         y ! 0 = fl32 (fmul (x ! 0) (fl32 (fsub (Fin 1) coeff))) \<and>
         (\<forall>i. 1 \<le> i \<and> i < unat n \<longrightarrow>
            y ! i = fl32 (fsub (x ! i) (fl32 (fmul coeff (x ! (i - 1)))))) \<and>
         (\<forall>i. unat n \<le> i \<and> i < length x \<longrightarrow> y ! i = x ! i))) \<and>
   (unat n \<le> length x \<and> (\<forall>k. k < unat n \<longrightarrow> fl32 (x ! k) = x ! k) \<and>
    (\<forall>k. k + 1 < unat n \<longrightarrow> is_fin (x ! k)) \<longrightarrow>
      audio_preemphasis x n (Fin 0) = Inr x)"
proof (intro conjI impI)
  assume "n < 2"
  then show "audio_preemphasis x n coeff = Inr x" by (simp add: audio_preemphasis_def)
next
  assume a: "2 \<le> n \<and> unat n \<le> length x"
  then have n2: "2 \<le> unat n" and len: "unat n \<le> length x" by (simp_all add: word_le_nat_alt)
  have "(1::u32) \<le> n" using n2 by (simp add: word_le_nat_alt)
  then have m: "unat (n - 1) = unat n - 1" by (simp add: unat_sub)
  then have "unat (n - 1) < length x" using n2 len by simp
  from preemphasis_loop_correct [OF this, of coeff]
  obtain ys where r: "preemphasis_loop x coeff (n - 1) = Inr ys" "length ys = length x"
    "\<forall>k. 1 \<le> k \<and> k \<le> unat (n - 1) \<longrightarrow>
       ys ! k = fl32 (fsub (x ! k) (fl32 (fmul coeff (x ! (k - 1)))))"
    "\<forall>k. k = 0 \<or> unat (n - 1) < k \<longrightarrow> ys ! k = x ! k"
    by blast
  let ?y = "ys[0 := fl32 (fmul (ys ! 0) (fl32 (fsub (Fin 1) coeff)))]"
  have ne: "ys \<noteq> []" using r(2) n2 len by auto
  have "\<not> n < 2" using a by (simp add: not_less)
  then have e: "audio_preemphasis x n coeff = Inr ?y"
    using r(1) ne by (simp add: audio_preemphasis_def)
  have l: "length ?y = length x" using r(2) by simp
  have "ys ! 0 = x ! 0" using r(4) by blast
  then have z: "?y ! 0 = fl32 (fmul (x ! 0) (fl32 (fsub (Fin 1) coeff)))" using ne by simp
  have f: "\<forall>i. 1 \<le> i \<and> i < unat n \<longrightarrow>
      ?y ! i = fl32 (fsub (x ! i) (fl32 (fmul coeff (x ! (i - 1)))))"
  proof (intro allI impI)
    fix i
    assume i: "1 \<le> i \<and> i < unat n"
    then have "1 \<le> i \<and> i \<le> unat (n - 1)" using m by auto
    with r(3) have "ys ! i = fl32 (fsub (x ! i) (fl32 (fmul coeff (x ! (i - 1)))))" by blast
    moreover have "i \<noteq> 0" using i by simp
    ultimately show "?y ! i = fl32 (fsub (x ! i) (fl32 (fmul coeff (x ! (i - 1)))))" by simp
  qed
  have g: "\<forall>i. unat n \<le> i \<and> i < length x \<longrightarrow> ?y ! i = x ! i"
  proof (intro allI impI)
    fix i
    assume i: "unat n \<le> i \<and> i < length x"
    then have "i = 0 \<or> unat (n - 1) < i" using m n2 by auto
    with r(4) have "ys ! i = x ! i" by blast
    moreover have "i \<noteq> 0" using i n2 by simp
    ultimately show "?y ! i = x ! i" by simp
  qed
  from e l z f g
  show "\<exists>y. audio_preemphasis x n coeff = Inr y \<and> length y = length x \<and>
         y ! 0 = fl32 (fmul (x ! 0) (fl32 (fsub (Fin 1) coeff))) \<and>
         (\<forall>i. 1 \<le> i \<and> i < unat n \<longrightarrow>
            y ! i = fl32 (fsub (x ! i) (fl32 (fmul coeff (x ! (i - 1)))))) \<and>
         (\<forall>i. unat n \<le> i \<and> i < length x \<longrightarrow> y ! i = x ! i)"
    by blast
next
  assume a: "unat n \<le> length x \<and> (\<forall>k. k < unat n \<longrightarrow> fl32 (x ! k) = x ! k) \<and>
    (\<forall>k. k + 1 < unat n \<longrightarrow> is_fin (x ! k))"
  then have len: "unat n \<le> length x" by blast
  have flo: "fl32 (x ! k) = x ! k" if "k < unat n" for k using a that by blast
  have fin: "is_fin (x ! k)" if "k + 1 < unat n" for k using a that by blast
  show "audio_preemphasis x n (Fin 0) = Inr x"
  proof (cases "n < 2")
    case True
    then show ?thesis by (simp add: audio_preemphasis_def)
  next
    case False
    then have n2w: "2 \<le> n" by (simp add: not_less)
    then have n2: "2 \<le> unat n" by (simp add: word_le_nat_alt)
    have "(1::u32) \<le> n" using n2 by (simp add: word_le_nat_alt)
    then have m: "unat (n - 1) = unat n - 1" by (simp add: unat_sub)
    then have "unat (n - 1) < length x" using n2 len by simp
    from preemphasis_loop_correct [OF this, of "Fin 0"]
    obtain ys where r: "preemphasis_loop x (Fin 0) (n - 1) = Inr ys" "length ys = length x"
      "\<forall>k. 1 \<le> k \<and> k \<le> unat (n - 1) \<longrightarrow>
         ys ! k = fl32 (fsub (x ! k) (fl32 (fmul (Fin 0) (x ! (k - 1)))))"
      "\<forall>k. k = 0 \<or> unat (n - 1) < k \<longrightarrow> ys ! k = x ! k"
      by blast
    have "ys ! k = x ! k" if "k < length x" for k
    proof (cases "1 \<le> k \<and> k \<le> unat (n - 1)")
      case True
      with r(3) have "ys ! k = fl32 (fsub (x ! k) (fl32 (fmul (Fin 0) (x ! (k - 1)))))" by blast
      moreover have "is_fin (x ! (k - 1))" using True m by (intro fin) auto
      moreover have "fl32 (x ! k) = x ! k" using True m n2 by (intro flo) auto
      ultimately show ?thesis by (simp add: fmul_zero_fin fsub_zero fl32_0)
    next
      case False
      then have "k = 0 \<or> unat (n - 1) < k" by auto
      with r(4) show ?thesis by blast
    qed
    with r(2) have ys: "ys = x" by (simp add: list_eq_iff_nth_eq)
    have ne: "x \<noteq> []" using n2 len by auto
    have "fl32 (x ! 0) = x ! 0" using n2 by (intro flo) simp
    then have "x[0 := fl32 (fmul (x ! 0) (fl32 (fsub (Fin 1) (Fin 0))))] = x"
      by (simp add: fmul_one fl32_1)
    then show ?thesis using False r(1) ne unfolding ys by (simp add: audio_preemphasis_def)
  qed
qed

lemma fl32_half: "fl32 (Fin (1 / 2)) = Fin (1 / 2)"
proof -
  have "rnd 24 (- 126) (1 / 2) = 1 / 2"
    using rnd_normal [of "- 1" "1 / 2" "- 126" 24] by (simp add: round_half_even_def Let_def)
  then show ?thesis by (simp add: fl32_def round_to_def Let_def)
qed

lemma fl32_three_halves: "fl32 (Fin (3 / 2)) = Fin (3 / 2)"
proof -
  have "rnd 24 (- 126) (3 / 2) = 3 / 2"
    using rnd_normal [of 0 "3 / 2" "- 126" 24] by (simp add: round_half_even_def Let_def)
  then show ?thesis by (simp add: fl32_def round_to_def Let_def)
qed

theorem audio_preemphasis_formula_witness:
  "audio_preemphasis [Fin 1, Fin 2, Fin 4] 3 (Fin (1 / 2)) = Inr [Fin (1 / 2), Fin (3 / 2), Fin 3] \<and>
   audio_preemphasis [Fin 1, Fin 2, Fin 4] 3 (Fin 0) = Inr [Fin 1, Fin 2, Fin 4]"
proof -
  let ?x = "[Fin 1, Fin 2, Fin 4]"
  have h: "2 \<le> (3::u32) \<and> unat (3::u32) \<le> length ?x" by simp
  have u: "unat (3::u32) = 3" by simp
  have "fl32 (?x ! k) = ?x ! k" if "k < 3" for k
  proof -
    from that have "k = 0 \<or> k = 1 \<or> k = 2" by arith
    then show ?thesis by (elim disjE) (simp_all add: fl32_1 fl32_numeral)
  qed
  moreover have "is_fin (?x ! k)" if "k + 1 < 3" for k
  proof -
    from that have "k = 0 \<or> k = 1" by arith
    then show ?thesis by (elim disjE) (simp_all add: is_fin_def)
  qed
  ultimately have k: "unat (3::u32) \<le> length ?x \<and>
      (\<forall>k. k < unat (3::u32) \<longrightarrow> fl32 (?x ! k) = ?x ! k) \<and>
      (\<forall>k. k + 1 < unat (3::u32) \<longrightarrow> is_fin (?x ! k))"
    unfolding u by simp
  note t = audio_preemphasis_formula [of 3 ?x "Fin (1 / 2)"]
  from t h obtain y where y: "audio_preemphasis ?x 3 (Fin (1 / 2)) = Inr y" "length y = length ?x"
    "y ! 0 = fl32 (fmul (?x ! 0) (fl32 (fsub (Fin 1) (Fin (1 / 2)))))"
    "\<forall>i. 1 \<le> i \<and> i < unat (3::u32) \<longrightarrow>
       y ! i = fl32 (fsub (?x ! i) (fl32 (fmul (Fin (1 / 2)) (?x ! (i - 1)))))"
    by blast
  from y(4) have "y ! 1 = fl32 (fsub (?x ! 1) (fl32 (fmul (Fin (1 / 2)) (?x ! (1 - 1)))))"
    "y ! 2 = fl32 (fsub (?x ! 2) (fl32 (fmul (Fin (1 / 2)) (?x ! (2 - 1)))))" by simp_all
  then have "y ! 1 = Fin (3 / 2)" "y ! 2 = Fin 3"
    by (simp_all add: fl32_half fl32_three_halves fl32_1 fl32_numeral)
  moreover from y(3) have "y ! 0 = Fin (1 / 2)" by (simp add: fl32_half)
  moreover from y(2) have "length y = 3" by simp
  ultimately have "y = [Fin (1 / 2), Fin (3 / 2), Fin 3]"
    by (simp add: list_eq_iff_nth_eq less_Suc_eq numeral_3_eq_3 numeral_2_eq_2)
  moreover from audio_preemphasis_formula [of 3 ?x "Fin 0"] k
  have "audio_preemphasis ?x 3 (Fin 0) = Inr ?x" by blast
  ultimately show ?thesis using y(1) by simp
qed

text \<open>
  The claim as stated fails in two ways. The differences and products are rounded: with
  the coefficient \<^verbatim>\<open>0.1f\<close> (which is \<open>13421773 / 2\<^sup>2\<^sup>7\<close>) on \<open>[1, 1]\<close>, the sample
  \<open>y[1]\<close> is \<open>7549747 / 2\<^sup>2\<^sup>3\<close>, not \<open>1 - coeff * 1\<close>. And with \<open>coeff = 0\<close> the filter is not
  the identity on an array that holds a \<open>NaN\<close>: the product \<open>0 * NaN\<close> is \<open>NaN\<close>, and so
  is the sample after it.
\<close>

lemma fl32_tenth: "fl32 (Fin (13421773 / 134217728)) = Fin (13421773 / 134217728)"
proof -
  have "rnd 24 (- 126) (13421773 / 134217728) = 13421773 / 134217728"
    using rnd_normal [of "- 4" "13421773 / 134217728" "- 126" 24]
    by (simp add: round_half_even_def Let_def)
  then show ?thesis by (simp add: fl32_def round_to_def Let_def)
qed

lemma fl32_one_minus_tenth: "fl32 (Fin (120795955 / 134217728)) = Fin (7549747 / 8388608)"
proof -
  have "rnd 24 (- 126) (120795955 / 134217728) = 7549747 / 8388608"
    using rnd_normal [of "- 1" "120795955 / 134217728" "- 126" 24]
    by (simp add: round_half_even_def Let_def)
  then show ?thesis by (simp add: fl32_def round_to_def Let_def)
qed

lemma fl32_result: "fl32 (Fin (7549747 / 8388608)) = Fin (7549747 / 8388608)"
proof -
  have "rnd 24 (- 126) (7549747 / 8388608) = 7549747 / 8388608"
    using rnd_normal [of "- 1" "7549747 / 8388608" "- 126" 24]
    by (simp add: round_half_even_def Let_def)
  then show ?thesis by (simp add: fl32_def round_to_def Let_def)
qed

theorem audio_preemphasis_counterexample:
  "fl32 (Fin (13421773 / 134217728)) = Fin (13421773 / 134217728) \<and>
   audio_preemphasis [Fin 1, Fin 1] 2 (Fin (13421773 / 134217728))
     = Inr [Fin (7549747 / 8388608), Fin (7549747 / 8388608)] \<and>
   fsub (Fin 1) (fmul (Fin (13421773 / 134217728)) (Fin 1)) \<noteq> Fin (7549747 / 8388608) \<and>
   audio_preemphasis [NaN, Fin 1] 2 (Fin 0) = Inr [NaN, NaN] \<and> [NaN, NaN] \<noteq> [NaN, Fin 1]"
proof (intro conjI)
  show "fl32 (Fin (13421773 / 134217728)) = Fin (13421773 / 134217728)" by (rule fl32_tenth)
  have l0: "preemphasis_loop ys (Fin (13421773 / 134217728)) 0 = Inr ys" for ys
    by (subst preemphasis_loop.simps) simp
  have "preemphasis_loop [Fin 1, Fin 1] (Fin (13421773 / 134217728)) 1
      = Inr [Fin 1, Fin (7549747 / 8388608)]"
    by (subst preemphasis_loop.simps) (simp add: l0 fl32_tenth fl32_one_minus_tenth)
  then show "audio_preemphasis [Fin 1, Fin 1] 2 (Fin (13421773 / 134217728))
     = Inr [Fin (7549747 / 8388608), Fin (7549747 / 8388608)]"
    by (simp add: audio_preemphasis_def fl32_one_minus_tenth fl32_result)
  show "fsub (Fin 1) (fmul (Fin (13421773 / 134217728)) (Fin 1)) \<noteq> Fin (7549747 / 8388608)"
    by simp
  show "audio_preemphasis [NaN, Fin 1] 2 (Fin 0) = Inr [NaN, NaN]"
    by (simp add: audio_preemphasis_def preemphasis_loop.simps fl32_def)
  show "[NaN, NaN] \<noteq> [NaN, Fin 1]" by simp
qed

subsection \<open>Scanning frames\<close>

text \<open>The number of frames the specification gives for a buffer of \<open>tot\<close> samples.\<close>

definition frame_count :: "nat \<Rightarrow> nat \<Rightarrow> nat \<Rightarrow> nat" where
  "frame_count tot fs hop = (if fs \<le> tot then (tot - fs) div hop + 1 else 0)"

text \<open>The frames left when the loop is at offset \<open>off\<close>.\<close>

definition frames_left :: "nat \<Rightarrow> nat \<Rightarrow> nat \<Rightarrow> nat \<Rightarrow> nat" where
  "frames_left tot fs hop off =
     (if off + fs \<le> tot then (tot - fs - off) div hop + 1 else 0)"

lemma frames_left_step:
  assumes "0 < hop" "off + fs \<le> tot"
  shows "frames_left tot fs hop off = Suc (frames_left tot fs hop (off + hop))"
proof (cases "off + hop + fs \<le> tot")
  case True
  define x where "x = tot - fs - (off + hop)"
  have e: "tot - fs - off = x + hop" using True by (simp add: x_def)
  have "(x + hop) div hop = x div hop + 1" using assms(1) by simp
  then have "(tot - fs - off) div hop = (tot - fs - (off + hop)) div hop + 1"
    unfolding e x_def .
  with True assms(2) show ?thesis by (simp only: frames_left_def if_True)
next
  case False
  then have "tot - fs - off < hop" using assms(2) by simp
  then have "(tot - fs - off) div hop = 0" by simp
  with False assms(2) show ?thesis by (simp add: frames_left_def)
qed

lemma unat_add_u32: "unat (a::u32) + unat b < 2 ^ 32 \<Longrightarrow> unat (a + b) = unat a + unat b"
  using unat_add_lem [of a b] by simp

lemma vad_frames_loop_correct:
  assumes "0 < unat hop" "unat tot + unat hop < 2 ^ 32" "unat tot \<le> length samples"
    "unat offset + unat fs < 2 ^ 32"
  shows "\<exists>flags. vad_detect_frames_loop samples tot fs hop et zl zh offset nf fl =
           Some (Inr (nf + word_of_nat (frames_left (unat tot) (unat fs) (unat hop) (unat offset)),
                      fl @ flags)) \<and>
           length flags = frames_left (unat tot) (unat fs) (unat hop) (unat offset) \<and>
           (\<forall>j<length flags.
              vad_detect (drop (unat offset + j * unat hop) samples) fs et zl zh = Inr (flags ! j))"
  using assms(4)
proof (induction "unat tot + unat hop - unat offset" arbitrary: offset nf fl rule: less_induct)
  case less
  have cmp: "offset + fs \<le> tot \<longleftrightarrow> unat offset + unat fs \<le> unat tot"
    using less.prems by (simp add: word_le_nat_alt unat_add_u32)
  show ?case
  proof (cases "unat offset + unat fs \<le> unat tot")
    case False
    then have "frames_left (unat tot) (unat fs) (unat hop) (unat offset) = 0"
      by (simp add: frames_left_def)
    with False cmp show ?thesis by (subst vad_detect_frames_loop.simps) simp
  next
    case True
    have "unat fs \<le> length (drop (unat offset) samples)" using True assms(3) by simp
    from vad_detect_total [OF this]
    obtain flag where fl: "vad_detect (drop (unat offset) samples) fs et zl zh = Inr flag"
      by blast
    have nw: "unat offset + unat hop < 2 ^ 32" using True assms(2) by simp
    then have o: "unat (offset + hop) = unat offset + unat hop" by (rule unat_add_u32)
    have dec: "unat tot + unat hop - unat (offset + hop) < unat tot + unat hop - unat offset"
      using True assms(1) o by simp
    have inv: "unat (offset + hop) + unat fs < 2 ^ 32" using True assms(2) o by simp
    from less.hyps [OF dec inv, of "nf + 1" "fl @ [flag]"]
    obtain flags where r:
      "vad_detect_frames_loop samples tot fs hop et zl zh (offset + hop) (nf + 1) (fl @ [flag]) =
         Some (Inr (nf + 1 + word_of_nat (frames_left (unat tot) (unat fs) (unat hop) (unat (offset + hop))),
                    (fl @ [flag]) @ flags))"
      "length flags = frames_left (unat tot) (unat fs) (unat hop) (unat (offset + hop))"
      "\<forall>j<length flags.
          vad_detect (drop (unat (offset + hop) + j * unat hop) samples) fs et zl zh = Inr (flags ! j)"
      by blast
    have st: "frames_left (unat tot) (unat fs) (unat hop) (unat offset) =
              Suc (frames_left (unat tot) (unat fs) (unat hop) (unat (offset + hop)))"
      using frames_left_step [OF assms(1) True] o by simp
    have a: "vad_detect_frames_loop samples tot fs hop et zl zh offset nf fl =
           Some (Inr (nf + word_of_nat (frames_left (unat tot) (unat fs) (unat hop) (unat offset)),
                      fl @ (flag # flags)))"
      using True cmp fl r(1) by (subst vad_detect_frames_loop.simps) (simp add: st)
    have b: "length (flag # flags) = frames_left (unat tot) (unat fs) (unat hop) (unat offset)"
      using r(2) st by simp
    have c: "\<forall>j<length (flag # flags).
              vad_detect (drop (unat offset + j * unat hop) samples) fs et zl zh = Inr ((flag # flags) ! j)"
    proof (intro allI impI)
      fix j
      assume j: "j < length (flag # flags)"
      show "vad_detect (drop (unat offset + j * unat hop) samples) fs et zl zh = Inr ((flag # flags) ! j)"
      proof (cases j)
        case 0
        then show ?thesis using fl by simp
      next
        case (Suc k)
        then have "k < length flags" using j by simp
        with r(3) have "vad_detect (drop (unat (offset + hop) + k * unat hop) samples) fs et zl zh = Inr (flags ! k)"
          by blast
        then show ?thesis using Suc o by (simp add: add.assoc)
      qed
    qed
    from a b c show ?thesis by blast
  qed
qed

lemma frames_left_0: "frames_left tot fs hop 0 = frame_count tot fs hop"
  by (simp add: frames_left_def frame_count_def)

lemma frame_count_le: "0 < hop \<Longrightarrow> frame_count tot fs hop \<le> tot + 1"
proof -
  assume "0 < hop"
  have "(tot - fs) div hop \<le> tot" by (rule le_trans [OF div_le_dividend]) simp
  then show ?thesis by (simp add: frame_count_def)
qed

text \<open>
  With \<open>hop_size \<ge> 1\<close>, and \<open>total_samples + hop_size\<close> within the range of \<^verbatim>\<open>uint32_t\<close>
  (so that the offset cannot wrap), \<open>vad_detect_frames\<close> on a buffer of at least
  \<open>total_samples\<close> samples returns; it classifies the frame at each offset
  \<open>0, hop, 2 hop, \<dots>\<close> with \<open>offset + frame_size \<le> total_samples\<close>, stores the flags in
  increasing offset order, and returns their number:
  \<open>(total_samples - frame_size) div hop_size + 1\<close> when \<open>total_samples \<ge> frame_size\<close>, and 0
  (no flags) otherwise.
\<close>

lemma vad_detect_frames_regular:
  assumes "hop_size \<noteq> 0" and "unat total_samples + unat hop_size < 2 ^ 32"
    and "unat total_samples \<le> length samples"
  shows "\<exists>num_frames flags.
           vad_detect_frames samples total_samples frame_size hop_size energy_thresh zcr_low zcr_high =
             Some (Inr (num_frames, flags)) \<and>
           unat num_frames = frame_count (unat total_samples) (unat frame_size) (unat hop_size) \<and>
           length flags = frame_count (unat total_samples) (unat frame_size) (unat hop_size) \<and>
           (\<forall>j<length flags.
              j * unat hop_size + unat frame_size \<le> unat total_samples \<and>
              vad_detect (drop (j * unat hop_size) samples) frame_size energy_thresh zcr_low zcr_high =
                Inr (flags ! j))"
proof -
  let ?c = "frame_count (unat total_samples) (unat frame_size) (unat hop_size)"
  have hop: "0 < unat hop_size" using assms(1) by (simp add: unat_gt_0)
  have "unat frame_size < 2 ^ 32" using unsigned_less [of frame_size] by simp
  then have inv: "unat (0::u32) + unat frame_size < 2 ^ 32" by simp
  from vad_frames_loop_correct [OF hop assms(2,3) inv, of energy_thresh zcr_low zcr_high 0 "[]"]
  obtain flags where r:
    "vad_detect_frames samples total_samples frame_size hop_size energy_thresh zcr_low zcr_high =
       Some (Inr (word_of_nat ?c, flags))"
    "length flags = ?c"
    "\<forall>j<length flags.
        vad_detect (drop (j * unat hop_size) samples) frame_size energy_thresh zcr_low zcr_high =
          Inr (flags ! j)"
    by (auto simp: vad_detect_frames_def frames_left_0)
  have "?c \<le> unat total_samples + 1" using hop by (rule frame_count_le)
  then have "?c < 2 ^ 32" using assms(2) hop by simp
  then have u: "unat (word_of_nat ?c :: u32) = ?c" by (rule unat_of_nat_u32)
  have b: "j * unat hop_size + unat frame_size \<le> unat total_samples" if "j < ?c" for j
  proof -
    from that have fs: "unat frame_size \<le> unat total_samples"
      by (simp add: frame_count_def split: if_splits)
    from that fs have "j \<le> (unat total_samples - unat frame_size) div unat hop_size"
      by (simp add: frame_count_def)
    then have "j * unat hop_size \<le> (unat total_samples - unat frame_size) div unat hop_size * unat hop_size"
      by (rule mult_le_mono1)
    also have "\<dots> \<le> unat total_samples - unat frame_size" by (rule div_times_less_eq_dividend)
    finally show ?thesis using fs by simp
  qed
  from r u b show ?thesis by auto
qed

text \<open>
  C7. \<open>vad_detect_frames\<close> is specified to return, for every frame size and hop size,
  the flags of the frames at the offsets \<open>0, hop, 2 hop, \<dots>\<close>. With \<open>hop_size = 0\<close> and a
  frame that fits the buffer the offset stays 0 and the loop condition stays true: the
  call never returns. (The flags array of the model is not bounded; in the library each
  iteration stores one more flag, past the end of the caller's array.) The library
  guards the zero parameters of its other functions: \<^verbatim>\<open>audio_resample_linear\<close> returns 0
  for a zero rate and \<^verbatim>\<open>find_voiced_segments\<close> for a zero frame size.
\<close>

theorem vad_detect_frames_zero_hop:
  assumes "frame_size \<le> total_samples" "unat total_samples \<le> length samples"
  shows "vad_detect_frames samples total_samples frame_size 0 energy_thresh zcr_low zcr_high
           = None"
proof (cases "vad_detect_frames samples total_samples frame_size 0 energy_thresh zcr_low zcr_high")
  case None
  then show ?thesis .
next
  case (Some y)
  then have asm: "vad_detect_frames_loop samples total_samples frame_size 0
      energy_thresh zcr_low zcr_high 0 0 [] = Some y"
    by (simp add: vad_detect_frames_def)
  note ri = vad_detect_frames_loop.raw_induct
      [where P = "\<lambda>smp tot fs hop et zl zh offset nf fl y.
                   \<not> (smp = samples \<and> tot = total_samples \<and> fs = frame_size \<and> hop = 0 \<and>
                      offset = 0)"]
  have "\<not> (samples = samples \<and> total_samples = total_samples \<and> frame_size = frame_size \<and>
           (0::u32) = 0 \<and> (0::u32) = 0)"
  proof (rule ri [OF _ asm], goal_cases)
    case (1 f smp tot fs hop et zl zh offset nf fl y)
    show ?case
    proof
      assume a: "smp = samples \<and> tot = total_samples \<and> fs = frame_size \<and> hop = 0 \<and> offset = 0"
      have "unat frame_size \<le> length samples"
        using assms by (simp add: word_le_nat_alt)
      then obtain flag where "vad_detect samples frame_size et zl zh = Inr flag"
        using vad_detect_total by blast
      with 1(2) a assms(1)
      have "f smp tot fs hop et zl zh offset (nf + 1) (fl @ [flag]) = Some y"
        by simp
      from 1(1) [OF this] a show False by blast
    qed
  qed
  then show ?thesis by simp
qed

theorem vad_detect_frames_zero_hop_witness:
  "(1::u32) \<le> 1 \<and> unat (1::u32) \<le> length [Fin 0] \<and>
   vad_detect_frames [Fin 0] 1 1 0 (Fin (- 35)) (Fin 0) (Fin 1) = None"
  using vad_detect_frames_zero_hop [of 1 1 "[Fin 0]" "Fin (- 35)" "Fin 0" "Fin 1"] by simp

text \<open>
  The offset is a \<^verbatim>\<open>uint32_t\<close>: when \<open>total_samples + hop_size\<close> exceeds its range the sum
  \<open>offset + frame_size\<close> can wrap below \<open>total_samples\<close>, and the next frame is read far
  outside the buffer.
\<close>

lemma vad_detect_frames_wrap:
  "vad_detect_frames (replicate 10 (Fin 0)) 10 4 4294967294 (Fin (- 35)) (Fin 0) (Fin 1)
     = Some (Inl OutOfBounds)"
proof -
  have z: "\<forall>s \<in> set (take (unat (4::u32)) (replicate 10 (Fin 0))). s = Fin 0" by simp
  have "audio_energy_db (replicate 10 (Fin 0)) 4 = Inr (Fin (- 100))"
    by (intro energy_db_rms_0 audio_rms_zero z) simp
  then have f: "vad_detect (replicate 10 (Fin 0)) 4 (Fin (- 35)) (Fin 0) (Fin 1) = Inr 0"
    by (simp add: vad_detect_def)
  have o: "vad_detect [] 4 (Fin (- 35)) (Fin 0) (Fin 1) = Inl OutOfBounds"
    by (simp add: vad_detect_def audio_energy_db_def audio_rms_def)
  have "vad_detect_frames_loop (replicate 10 (Fin 0)) 10 4 4294967294 (Fin (- 35)) (Fin 0) (Fin 1)
          4294967294 1 [0] = Some (Inl OutOfBounds)"
    by (subst vad_detect_frames_loop.simps) (simp add: o)
  then show ?thesis
    unfolding vad_detect_frames_def
    by (subst vad_detect_frames_loop.simps) (simp add: f)
qed

section \<open>Voiced segments\<close>

text \<open>
  The local variables of \<^verbatim>\<open>find_voiced_segments\<close> that the loop changes. The two output
  arrays \<^verbatim>\<open>out_starts\<close> and \<^verbatim>\<open>out_ends\<close> are written at the same index \<open>seg_count\<close>,
  which then grows by one: \<open>out_segs\<close> is the list of the pairs stored at indexes
  0, 1, ...
\<close>

record seg_state =
  seg_count :: u32
  voiced_run :: u32
  run_start :: u32
  out_segs :: "(u32 \<times> u32) list"

text \<open>The test and the stores that the code has twice: in the loop, with the current
  offset as end, and after the loop, with \<open>n\<close> as end.\<close>

definition emit_run :: "u32 \<Rightarrow> u32 \<Rightarrow> u32 \<Rightarrow> u32 \<Rightarrow> seg_state \<Rightarrow> seg_state" where
  "emit_run min_frames max_frames max_segments end_pos st =
     (if min_frames \<le> voiced_run st \<and> voiced_run st \<le> max_frames \<and> seg_count st < max_segments
      then st\<lparr>seg_count := seg_count st + 1,
              out_segs := out_segs st @ [(run_start st, end_pos)]\<rparr>
      else st)"

text \<open>\<^verbatim>\<open>for (off = 0; off + frame_size <= n; off += frame_size)\<close>: the sum can wrap, so the
  loop need not end.\<close>

partial_function (option) find_voiced_loop ::
  "fval list \<Rightarrow> u32 \<Rightarrow> u32 \<Rightarrow> fval \<Rightarrow> u32 \<Rightarrow> u32 \<Rightarrow> u32 \<Rightarrow> u32 \<Rightarrow> seg_state
     \<Rightarrow> (fault + seg_state) option" where
  "find_voiced_loop samples n frame_size energy_thresh min_frames max_frames max_segments off st =
     (if off + frame_size \<le> n then
        (case audio_energy_db (drop (unat off) samples) frame_size of
           Inl e \<Rightarrow> Some (Inl e)
         | Inr e \<Rightarrow>
             find_voiced_loop samples n frame_size energy_thresh min_frames max_frames
               max_segments (off + frame_size)
               (if fge e energy_thresh then
                  st\<lparr>voiced_run := voiced_run st + 1,
                     run_start := (if voiced_run st = 0 then off else run_start st)\<rparr>
                else (emit_run min_frames max_frames max_segments off st)\<lparr>voiced_run := 0\<rparr>))
      else Some (Inr st))"

definition find_voiced_segments ::
  "fval list \<Rightarrow> u32 \<Rightarrow> u32 \<Rightarrow> u32 \<Rightarrow> fval \<Rightarrow> u32 \<Rightarrow> u32 \<Rightarrow> u32
     \<Rightarrow> (fault + (u32 \<times> (u32 \<times> u32) list)) option" where
  "find_voiced_segments samples n sample_rate frame_ms energy_thresh min_dur_ms max_dur_ms
       max_segments =
     (let frame_size = (sample_rate * frame_ms) div 1000 in
      if frame_size = 0 \<or> n < frame_size then Some (Inr (0, []))
      else
        let min_frames = (min_dur_ms + frame_ms - 1) div frame_ms;
            max_frames = max_dur_ms div frame_ms
        in (case find_voiced_loop samples n frame_size energy_thresh min_frames max_frames
                   max_segments 0
                   \<lparr>seg_count = 0, voiced_run = 0, run_start = 0, out_segs = []\<rparr> of
              None \<Rightarrow> None
            | Some (Inl e) \<Rightarrow> Some (Inl e)
            | Some (Inr st) \<Rightarrow>
                let st' = emit_run min_frames max_frames max_segments n st
                in Some (Inr (seg_count st', out_segs st'))))"

subsection \<open>Linear resampling\<close>

text \<open>
  The number of samples that \<^verbatim>\<open>audio_resample_linear\<close> writes depends on how its
  \<^verbatim>\<open>double\<close> operations round, so here rounding is modelled: \<open>rd\<close> rounds the result of
  a \<^verbatim>\<open>double\<close> operation and \<open>rf\<close> the conversion to \<^verbatim>\<open>float\<close>. With the identity
  for both the arithmetic is exact; \<open>ieee_round 53\<close> and \<open>ieee_round 24\<close> are the
  roundings of IEEE 754 binary64 and binary32 (to nearest, ties to even), for values in
  the normal range.
\<close>

definition ieee_round :: "nat \<Rightarrow> real \<Rightarrow> real" where
  "ieee_round p x =
     (if x = 0 then 0
      else let e = \<lfloor>log 2 \<bar>x\<bar>\<rfloor>; s = 2 powr (of_int e - real p + 1)
           in s * of_int (round_half_even (x / s)))"

definition frnd :: "(real \<Rightarrow> real) \<Rightarrow> fval \<Rightarrow> fval" where
  "frnd r a = (case a of Fin x \<Rightarrow> Fin (r x) | _ \<Rightarrow> a)"

definition fceil :: "fval \<Rightarrow> fval" where
  "fceil a = (case a of Fin x \<Rightarrow> Fin (of_int \<lceil>x\<rceil>) | _ \<Rightarrow> a)"

text \<open>\<^verbatim>\<open>std::min(a, b)\<close> is \<^verbatim>\<open>(b < a) ? b : a\<close>.\<close>

definition fmin :: "fval \<Rightarrow> fval \<Rightarrow> fval" where
  "fmin a b = (if flt b a then b else a)"

text \<open>\<^verbatim>\<open>static_cast<uint32_t>\<close> truncates; the values converted here are not negative.
  (The conversion of \<open>NaN\<close> or of a value outside the range is undefined in C++; the
  model wraps it.)\<close>

definition to_u32 :: "fval \<Rightarrow> u32" where
  "to_u32 a = (case a of Fin x \<Rightarrow> word_of_int \<lfloor>x\<rfloor> | _ \<Rightarrow> 0)"

definition resample_ratio :: "(real \<Rightarrow> real) \<Rightarrow> u32 \<Rightarrow> u32 \<Rightarrow> fval" where
  "resample_ratio rd src_rate dst_rate = frnd rd (fdiv (of_u32 src_rate) (of_u32 dst_rate))"

definition resample_out_len :: "(real \<Rightarrow> real) \<Rightarrow> u32 \<Rightarrow> fval \<Rightarrow> u32 \<Rightarrow> u32" where
  "resample_out_len rd in_len ratio out_capacity =
     to_u32 (fmin (of_u32 out_capacity) (fceil (frnd rd (fdiv (of_u32 in_len) ratio))))"

function resample_loop ::
  "(real \<Rightarrow> real) \<Rightarrow> (real \<Rightarrow> real) \<Rightarrow> fval list \<Rightarrow> u32 \<Rightarrow> fval \<Rightarrow> u32 \<Rightarrow> u32 \<Rightarrow> fval list
     \<Rightarrow> fault + fval list" where
  "resample_loop rd rf inp in_len ratio out_len i out =
     (if i < out_len then
        (let src_idx = frnd rd (fmul (of_u32 i) ratio);
             idx0 = to_u32 src_idx;
             idx1 = min (idx0 + 1) (in_len - 1);
             frac = frnd rd (fsub src_idx (of_u32 idx0))
         in if length inp \<le> unat idx0 \<or> length inp \<le> unat idx1 then Inl OutOfBounds
            else resample_loop rd rf inp in_len ratio out_len (i + 1)
                   (out @ [frnd rf (frnd rd
                      (fadd (frnd rd (fmul (inp ! unat idx0) (frnd rd (fsub (Fin 1) frac))))
                            (frnd rd (fmul (inp ! unat idx1) frac))))]))
      else Inr out)"
  by pat_completeness auto
termination
  by (relation "measure (\<lambda>(rd, rf, inp, in_len, ratio, out_len, i, out). unat out_len - unat i)")
     (auto simp: u32_succ_unat word_less_nat_alt)

declare resample_loop.simps [simp del]

definition audio_resample_linear ::
  "(real \<Rightarrow> real) \<Rightarrow> (real \<Rightarrow> real) \<Rightarrow> fval list \<Rightarrow> u32 \<Rightarrow> u32 \<Rightarrow> u32 \<Rightarrow> u32
     \<Rightarrow> fault + (u32 \<times> fval list)" where
  "audio_resample_linear rd rf inp in_len src_rate dst_rate out_capacity =
     (if in_len = 0 \<or> src_rate = 0 \<or> dst_rate = 0 then Inr (0, [])
      else
        let ratio = resample_ratio rd src_rate dst_rate;
            out_len = resample_out_len rd in_len ratio out_capacity
        in (case resample_loop rd rf inp in_len ratio out_len 0 [] of
              Inl e \<Rightarrow> Inl e
            | Inr out \<Rightarrow> Inr (out_len, out)))"

subsection \<open>Degenerate inputs\<close>

lemma ring_zero_capacity_calls:
  assumes "capacity rb = 0" "count rb = 0"
  shows "ring_write rb data n = Inr (0, rb)" "ring_read rb n = Inr (0, [], rb)"
  using assms
  by (simp_all add: ring_write_def ring_read_def ring_write_loop.simps ring_read_loop.simps)

text \<open>
  C10. Degenerate inputs give degenerate results, never a fault: on a buffer created
  with capacity 0, after any calls, a write and a read return 0 and change nothing (the
  \<^verbatim>\<open>%\<close> by the capacity is not reached); \<open>audio_resample_linear\<close> returns 0 for an empty
  input or a zero rate; \<open>find_voiced_segments\<close> returns 0 segments when the frame size
  computes to 0 or the buffer is shorter than one frame; and the empty frame has rms 0
  and energy \<open>-100\<close>.
\<close>

theorem degenerate_inputs:
  "((\<forall>opn \<in> set ops. op_ok opn) \<longrightarrow>
      (\<exists>rb. ring_run (ring_create 0) ops = Inr rb \<and>
         ring_write rb data n = Inr (0, rb) \<and> ring_read rb n = Inr (0, [], rb) \<and>
         ring_available rb = 0)) \<and>
   (in_len = 0 \<or> src_rate = 0 \<or> dst_rate = 0 \<longrightarrow>
      audio_resample_linear rd rf inp in_len src_rate dst_rate out_capacity = Inr (0, [])) \<and>
   ((sample_rate * frame_ms) div 1000 = 0 \<or> total_samples < (sample_rate * frame_ms) div 1000 \<longrightarrow>
      find_voiced_segments samples total_samples sample_rate frame_ms energy_thresh
        min_dur_ms max_dur_ms max_segments = Some (Inr (0, []))) \<and>
   audio_rms samples 0 = Inr (Fin 0) \<and> audio_energy_db samples 0 = Inr (Fin (- 100))"
proof (intro conjI impI)
  assume ok: "\<forall>opn \<in> set ops. op_ok opn"
  from ring_run_inv [OF ring_inv_create ok, of 0]
  obtain rb where r: "ring_run (ring_create 0) ops = Inr rb" "ring_inv rb" "capacity rb = 0"
    by (auto simp: ring_create_def)
  from r(2,3) have c: "count rb = 0" by (simp add: ring_inv_def)
  from r(1) c ring_zero_capacity_calls [OF r(3) c]
  show "\<exists>rb. ring_run (ring_create 0) ops = Inr rb \<and>
         ring_write rb data n = Inr (0, rb) \<and> ring_read rb n = Inr (0, [], rb) \<and>
         ring_available rb = 0"
    by (simp add: ring_available_def)
next
  assume "in_len = 0 \<or> src_rate = 0 \<or> dst_rate = 0"
  then show "audio_resample_linear rd rf inp in_len src_rate dst_rate out_capacity = Inr (0, [])"
    by (simp add: audio_resample_linear_def)
next
  assume "(sample_rate * frame_ms) div 1000 = 0 \<or> total_samples < (sample_rate * frame_ms) div 1000"
  then show "find_voiced_segments samples total_samples sample_rate frame_ms energy_thresh
        min_dur_ms max_dur_ms max_segments = Some (Inr (0, []))"
    by (simp add: find_voiced_segments_def Let_def)
next
  show "audio_rms samples 0 = Inr (Fin 0)" by (simp add: audio_rms_def)
  show "audio_energy_db samples 0 = Inr (Fin (- 100))"
    by (rule energy_db_rms_0) (simp add: audio_rms_def)
qed

theorem degenerate_inputs_witness:
  "(\<exists>rb. ring_run (ring_create 0) [Write [Fin 1, Fin 2] 2, Read 3, Clear] = Inr rb \<and>
      ring_write rb [Fin 1] 1 = Inr (0, rb) \<and> ring_read rb 1 = Inr (0, [], rb)) \<and>
   audio_resample_linear (ieee_round 53) (ieee_round 24) [Fin 1] 1 0 16000 8 = Inr (0, []) \<and>
   find_voiced_segments [Fin 1, Fin 1] 2 16000 30 (Fin (- 35)) 100 1000 4 = Some (Inr (0, []))"
proof -
  have ok: "\<forall>opn \<in> set [Write [Fin 1, Fin 2] 2, Read 3, Clear]. op_ok opn" by simp
  have z: "(1::u32) = 0 \<or> (0::u32) = 0 \<or> (16000::u32) = 0" by simp
  have f: "((16000::u32) * 30) div 1000 = 0 \<or> (2::u32) < (16000 * 30) div 1000" by simp
  note t = degenerate_inputs [of "[Write [Fin 1, Fin 2] 2, Read 3, Clear]" "[Fin 1]" 1 1 0 16000
      "ieee_round 53" "ieee_round 24" "[Fin 1]" 8 16000 30 2 "[Fin 1, Fin 1]" "Fin (- 35)" 100 1000 4]
  from t ok z f show ?thesis by blast
qed

subsection \<open>The specification of the segments\<close>

text \<open>
  The maximal runs of consecutive voiced frames of a flag sequence, each as the index of
  its first frame and its number of frames; \<open>k\<close> is the index of the first flag.
\<close>

function voiced_runs :: "nat \<Rightarrow> bool list \<Rightarrow> (nat \<times> nat) list" where
  "voiced_runs k [] = []"
| "voiced_runs k (False # vs) = voiced_runs (Suc k) vs"
| "voiced_runs k (True # vs) =
     (k, Suc (length (takeWhile (\<lambda>b. b) vs))) #
     voiced_runs (Suc k + length (takeWhile (\<lambda>b. b) vs)) (dropWhile (\<lambda>b. b) vs)"
  by pat_completeness auto
termination
  by (relation "measure (\<lambda>(k, vs). length vs)") (auto simp: le_imp_less_Suc length_dropWhile_le)

text \<open>A run is a candidate when its length is within the bounds; its interval ends at
  the offset of the frame after it, or at \<open>n\<close> if it lasts to the last of the \<open>F\<close> frames.\<close>

definition run_ok :: "nat \<Rightarrow> nat \<Rightarrow> nat \<times> nat \<Rightarrow> bool" where
  "run_ok min_frames max_frames r = (min_frames \<le> snd r \<and> snd r \<le> max_frames)"

definition run_interval :: "nat \<Rightarrow> nat \<Rightarrow> nat \<Rightarrow> nat \<times> nat \<Rightarrow> nat \<times> nat" where
  "run_interval fs n F r =
     (fst r * fs, if fst r + snd r = F then n else (fst r + snd r) * fs)"

definition emitted_segments ::
  "nat \<Rightarrow> nat \<Rightarrow> nat \<Rightarrow> nat \<Rightarrow> nat \<Rightarrow> bool list \<Rightarrow> (nat \<times> nat) list" where
  "emitted_segments min_frames max_frames max_segments fs n flags =
     take max_segments
       (map (run_interval fs n (length flags))
          (filter (run_ok min_frames max_frames) (voiced_runs 0 flags)))"

text \<open>The loop of the code on the flags, over natural numbers: \<open>v\<close> is the length of the
  current run, \<open>start\<close> the offset where it began.\<close>

fun scan_frames ::
  "nat \<Rightarrow> nat \<Rightarrow> nat \<Rightarrow> nat \<Rightarrow> bool list \<Rightarrow> nat \<Rightarrow> nat \<times> nat \<times> (nat \<times> nat) list
     \<Rightarrow> nat \<times> nat \<times> (nat \<times> nat) list" where
  "scan_frames mn mx M fs [] k st = st"
| "scan_frames mn mx M fs (b # vs) k (v, start, segs) =
     scan_frames mn mx M fs vs (Suc k)
       (if b then (Suc v, if v = 0 then k * fs else start, segs)
        else (0, start,
              if mn \<le> v \<and> v \<le> mx \<and> length segs < M then segs @ [(start, k * fs)] else segs))"

definition scan_finish ::
  "nat \<Rightarrow> nat \<Rightarrow> nat \<Rightarrow> nat \<Rightarrow> nat \<times> nat \<times> (nat \<times> nat) list \<Rightarrow> (nat \<times> nat) list" where
  "scan_finish mn mx M n st =
     (case st of (v, start, segs) \<Rightarrow>
        if mn \<le> v \<and> v \<le> mx \<and> length segs < M then segs @ [(start, n)] else segs)"

lemma voiced_runs_replicate:
  "0 < v \<Longrightarrow> voiced_runs s (replicate v True @ vs) =
     (s, v + length (takeWhile (\<lambda>b. b) vs)) #
     voiced_runs (s + v + length (takeWhile (\<lambda>b. b) vs)) (dropWhile (\<lambda>b. b) vs)"
proof (induction v arbitrary: s)
  case 0
  then show ?case by simp
next
  case (Suc v)
  have tw: "takeWhile (\<lambda>b. b) (replicate v True @ vs) = replicate v True @ takeWhile (\<lambda>b. b) vs"
    by (induction v) simp_all
  have dw: "dropWhile (\<lambda>b. b) (replicate v True @ vs) = dropWhile (\<lambda>b. b) vs"
    by (induction v) simp_all
  show ?case
  proof (cases "v = 0")
    case True
    then show ?thesis by simp
  next
    case False
    with Suc.IH [of "Suc s"] show ?thesis by (simp add: tw dw ac_simps)
  qed
qed

lemma scan_frames_spec:
  assumes "1 \<le> mn" "length segs \<le> M" "v \<le> k" "0 < v \<longrightarrow> start = (k - v) * fs"
  shows "scan_finish mn mx M n (scan_frames mn mx M fs vs k (v, start, segs)) =
           segs @ take (M - length segs)
             (map (run_interval fs n (k + length vs))
                (filter (run_ok mn mx) (voiced_runs (k - v) (replicate v True @ vs))))"
  using assms(2-4)
proof (induction vs arbitrary: k v start segs)
  case Nil
  show ?case
  proof (cases "v = 0")
    case True
    then show ?thesis using assms(1) by (simp add: scan_finish_def)
  next
    case False
    then have r: "voiced_runs (k - v) (replicate v True @ []) = [(k - v, v)]"
      using voiced_runs_replicate [of v "k - v" "[]"] by simp
    have i: "run_interval fs n (k + length ([]::bool list)) (k - v, v) = (start, n)"
      using False Nil.prems by (simp add: run_interval_def)
    show ?thesis
      unfolding r using i Nil.prems(1) by (auto simp: scan_finish_def run_ok_def)
  qed
next
  case (Cons b vs)
  show ?case
  proof (cases b)
    case True
    let ?start = "if v = 0 then k * fs else start"
    have p: "Suc v \<le> Suc k" "0 < Suc v \<longrightarrow> ?start = (Suc k - Suc v) * fs"
      using Cons.prems by auto
    have e: "replicate v True @ True # vs = replicate (Suc v) True @ vs"
      by (simp add: replicate_app_Cons_same)
    from Cons.IH [OF Cons.prems(1) p] True show ?thesis
      by (simp add: e del: replicate_Suc)
  next
    case False
    let ?segs = "if mn \<le> v \<and> v \<le> mx \<and> length segs < M then segs @ [(start, k * fs)] else segs"
    have l: "length ?segs \<le> M" using Cons.prems(1) by simp
    have step: "scan_frames mn mx M fs (b # vs) k (v, start, segs) =
                scan_frames mn mx M fs vs (Suc k) (0, start, ?segs)"
      using False by simp
    from Cons.IH [OF l, of 0 "Suc k" start]
    have ih: "scan_finish mn mx M n (scan_frames mn mx M fs vs (Suc k) (0, start, ?segs)) =
           ?segs @ take (M - length ?segs)
             (map (run_interval fs n (Suc k + length vs))
                (filter (run_ok mn mx) (voiced_runs (Suc k) vs)))"
      by simp
    show ?thesis
    proof (cases "v = 0")
      case True
      then have sg: "?segs = segs" using assms(1) by simp
      from ih True False show ?thesis unfolding step sg by simp
    next
      case v: False
      then have r: "voiced_runs (k - v) (replicate v True @ b # vs) =
                 (k - v, v) # voiced_runs (Suc k) vs"
        using voiced_runs_replicate [of v "k - v" "False # vs"] False Cons.prems(2) by simp
      have i: "run_interval fs n (Suc (k + length vs)) (k - v, v) = (start, k * fs)"
        using v Cons.prems by (simp add: run_interval_def)
      show ?thesis
      proof (cases "mn \<le> v \<and> v \<le> mx \<and> length segs < M")
        case emit: True
        then have sg: "?segs = segs @ [(start, k * fs)]" by simp
        from emit have f: "run_ok mn mx (k - v, v)" by (simp add: run_ok_def)
        from emit have m: "M - length segs = Suc (M - Suc (length segs))" by auto
        from ih have "scan_finish mn mx M n
              (scan_frames mn mx M fs vs (Suc k) (0, start, segs @ [(start, k * fs)])) =
            segs @ (start, k * fs) # take (M - Suc (length segs))
              (map (run_interval fs n (Suc k + length vs))
                 (filter (run_ok mn mx) (voiced_runs (Suc k) vs)))"
          unfolding sg by simp
        then show ?thesis unfolding step sg r by (simp add: f i m)
      next
        case noemit: False
        then have sg: "?segs = segs" by simp
        from ih have ih': "scan_finish mn mx M n
              (scan_frames mn mx M fs vs (Suc k) (0, start, segs)) =
            segs @ take (M - length segs)
              (map (run_interval fs n (Suc k + length vs))
                 (filter (run_ok mn mx) (voiced_runs (Suc k) vs)))"
          unfolding sg .
        show ?thesis
        proof (cases "mn \<le> v \<and> v \<le> mx")
          case True
          with noemit have "M - length segs = 0" by simp
          with ih' show ?thesis unfolding step sg by simp
        next
          case nok: False
          then have f: "\<not> run_ok mn mx (k - v, v)" by (simp add: run_ok_def)
          from ih' show ?thesis unfolding step sg r by (simp add: f)
        qed
      qed
    qed
  qed
qed

subsection \<open>The loop of the code and the scan of the flags\<close>

text \<open>Frame \<open>k\<close> is voiced when its energy passes the gate \<^verbatim>\<open>e >= energy_thresh\<close>.\<close>

definition frame_voiced :: "fval list \<Rightarrow> u32 \<Rightarrow> fval \<Rightarrow> nat \<Rightarrow> bool" where
  "frame_voiced samples frame_size energy_thresh k =
     (case audio_energy_db (drop (k * unat frame_size) samples) frame_size of
        Inl _ \<Rightarrow> False
      | Inr e \<Rightarrow> fge e energy_thresh)"

definition seg_abs :: "seg_state \<Rightarrow> nat \<times> nat \<times> (nat \<times> nat) list" where
  "seg_abs st =
     (unat (voiced_run st), unat (run_start st), map (\<lambda>(a, b). (unat a, unat b)) (out_segs st))"

lemma emit_run_abs:
  assumes "unat (seg_count st) = length (out_segs st)" "length (out_segs st) \<le> unat M"
  shows "seg_abs (emit_run mn mx M e st) =
           (unat (voiced_run st), unat (run_start st),
            if unat mn \<le> unat (voiced_run st) \<and> unat (voiced_run st) \<le> unat mx \<and>
               length (out_segs st) < unat M
            then map (\<lambda>(a, b). (unat a, unat b)) (out_segs st) @ [(unat (run_start st), unat e)]
            else map (\<lambda>(a, b). (unat a, unat b)) (out_segs st))"
    and "unat (seg_count (emit_run mn mx M e st)) = length (out_segs (emit_run mn mx M e st))"
    and "length (out_segs (emit_run mn mx M e st)) \<le> unat M"
proof -
  have c: "seg_count st < M \<longleftrightarrow> length (out_segs st) < unat M"
    using assms(1) by (simp add: word_less_nat_alt)
  show "seg_abs (emit_run mn mx M e st) =
           (unat (voiced_run st), unat (run_start st),
            if unat mn \<le> unat (voiced_run st) \<and> unat (voiced_run st) \<le> unat mx \<and>
               length (out_segs st) < unat M
            then map (\<lambda>(a, b). (unat a, unat b)) (out_segs st) @ [(unat (run_start st), unat e)]
            else map (\<lambda>(a, b). (unat a, unat b)) (out_segs st))"
    by (simp add: emit_run_def seg_abs_def c word_le_nat_alt)
  show "unat (seg_count (emit_run mn mx M e st)) = length (out_segs (emit_run mn mx M e st))"
    using assms(1) u32_succ_unat [of "seg_count st" M] by (simp add: emit_run_def)
  show "length (out_segs (emit_run mn mx M e st)) \<le> unat M"
    using assms c by (simp add: emit_run_def)
qed

lemma find_voiced_loop_scan:
  assumes "0 < unat fs" "unat n + unat fs < 2 ^ 32" "unat n \<le> length samples"
    and "unat off = k * unat fs" "k \<le> unat n div unat fs"
    and "unat (seg_count st) = length (out_segs st)" "length (out_segs st) \<le> unat M"
    and "unat (voiced_run st) \<le> k"
  shows "\<exists>st'. find_voiced_loop samples n fs thresh mn mx M off st = Some (Inr st') \<and>
           seg_abs st' =
             scan_frames (unat mn) (unat mx) (unat M) (unat fs)
               (map (frame_voiced samples fs thresh) [k..<unat n div unat fs]) k (seg_abs st) \<and>
           unat (seg_count st') = length (out_segs st') \<and> length (out_segs st') \<le> unat M"
  using assms(4-8)
proof (induction "unat n div unat fs - k" arbitrary: k off st)
  case 0
  then have kF: "k = unat n div unat fs" by simp
  have "\<not> Suc k \<le> unat n div unat fs" using kF by simp
  then have "\<not> Suc k * unat fs \<le> unat n"
    using less_eq_div_iff_mult_less_eq [OF assms(1), of "Suc k" "unat n"] by blast
  then have "\<not> unat off + unat fs \<le> unat n" using "0.prems"(1) by (simp add: add.commute)
  moreover have "unat off + unat fs < 2 ^ 32"
  proof -
    have "k * unat fs \<le> unat n" using kF by simp
    then show ?thesis using "0.prems"(1) assms(2) by simp
  qed
  ultimately have "\<not> off + fs \<le> n" by (simp add: word_le_nat_alt unat_add_u32)
  then have "find_voiced_loop samples n fs thresh mn mx M off st = Some (Inr st)"
    by (subst find_voiced_loop.simps) simp
  then show ?case using kF "0.prems" by simp
next
  case (Suc d)
  let ?F = "unat n div unat fs"
  from Suc.hyps(2) have kF: "k < ?F" by simp
  then have "Suc k \<le> ?F" by simp
  then have le: "Suc k * unat fs \<le> unat n"
    using less_eq_div_iff_mult_less_eq [OF assms(1), of "Suc k" "unat n"] by blast
  then have le': "unat off + unat fs \<le> unat n" using Suc.prems(1) by (simp add: add.commute)
  then have nw: "unat off + unat fs < 2 ^ 32" using assms(2) by simp
  then have o: "unat (off + fs) = Suc k * unat fs" using Suc.prems(1) by (simp add: unat_add_u32)
  from le' nw have c: "off + fs \<le> n" by (simp add: word_le_nat_alt unat_add_u32)
  have "unat fs \<le> length (drop (unat off) samples)" using le' assms(3) by simp
  from energy_total [OF this] obtain e where e: "audio_energy_db (drop (unat off) samples) fs = Inr e"
    by blast
  then have fv: "frame_voiced samples fs thresh k = fge e thresh"
    using Suc.prems(1) by (simp add: frame_voiced_def)
  have up: "[k..<?F] = k # [Suc k..<?F]" using kF by (simp add: upt_conv_Cons)
  have vlt: "unat (voiced_run st) < 2 ^ 32 - 1"
  proof -
    have "?F \<le> unat n" by (rule div_le_dividend)
    then have "unat (voiced_run st) < unat n" using Suc.prems(5) kF by linarith
    then show ?thesis using assms(1,2) by linarith
  qed
  let ?st1 = "if fge e thresh then
                  st\<lparr>voiced_run := voiced_run st + 1,
                     run_start := (if voiced_run st = 0 then off else run_start st)\<rparr>
                else (emit_run mn mx M off st)\<lparr>voiced_run := 0\<rparr>"
  have d: "d = ?F - Suc k" using Suc.hyps(2) by simp
  have a1: "unat (seg_count ?st1) = length (out_segs ?st1)"
    using emit_run_abs(2) [OF Suc.prems(3,4)] Suc.prems(3) by simp
  have a2: "length (out_segs ?st1) \<le> unat M"
    using emit_run_abs(3) [OF Suc.prems(3,4)] Suc.prems(4) by simp
  have vs: "unat (voiced_run st + 1) = Suc (unat (voiced_run st))"
  proof -
    have "unat (voiced_run st) + unat (1::u32) < 2 ^ 32" using vlt by simp
    then show ?thesis using unat_add_u32 [of "voiced_run st" 1] by simp
  qed
  have a3: "unat (voiced_run ?st1) \<le> Suc k" using Suc.prems(5) vs by simp
  from Suc.hyps(1) [OF d o \<open>Suc k \<le> ?F\<close> a1 a2 a3]
  obtain st' where r: "find_voiced_loop samples n fs thresh mn mx M (off + fs) ?st1 = Some (Inr st')"
    "seg_abs st' = scan_frames (unat mn) (unat mx) (unat M) (unat fs)
               (map (frame_voiced samples fs thresh) [Suc k..<?F]) (Suc k) (seg_abs ?st1)"
    "unat (seg_count st') = length (out_segs st')" "length (out_segs st') \<le> unat M"
    by blast
  have l: "find_voiced_loop samples n fs thresh mn mx M off st = Some (Inr st')"
    using c e r(1) by (subst find_voiced_loop.simps) simp
  have z: "voiced_run st = 0 \<longleftrightarrow> unat (voiced_run st) = 0" by (simp add: unat_eq_0)
  have ab: "seg_abs ?st1 =
      (if fge e thresh
       then (Suc (unat (voiced_run st)),
             if unat (voiced_run st) = 0 then k * unat fs else unat (run_start st),
             map (\<lambda>(a, b). (unat a, unat b)) (out_segs st))
       else (0, unat (run_start st),
             if unat mn \<le> unat (voiced_run st) \<and> unat (voiced_run st) \<le> unat mx \<and>
                length (out_segs st) < unat M
             then map (\<lambda>(a, b). (unat a, unat b)) (out_segs st) @ [(unat (run_start st), k * unat fs)]
             else map (\<lambda>(a, b). (unat a, unat b)) (out_segs st)))"
  proof (cases "fge e thresh")
    case True
    then show ?thesis using vs z Suc.prems(1) by (simp add: seg_abs_def)
  next
    case False
    have "seg_abs ((emit_run mn mx M off st)\<lparr>voiced_run := 0\<rparr>) =
          (0, fst (snd (seg_abs (emit_run mn mx M off st))), snd (snd (seg_abs (emit_run mn mx M off st))))"
      by (simp add: seg_abs_def)
    then show ?thesis
      using False Suc.prems(1) unfolding emit_run_abs(1) [OF Suc.prems(3,4)] by simp
  qed
  have "seg_abs st' = scan_frames (unat mn) (unat mx) (unat M) (unat fs)
               (map (frame_voiced samples fs thresh) [k..<?F]) k (seg_abs st)"
    unfolding r(2) up ab by (simp add: fv seg_abs_def)
  with l r(3,4) show ?case by blast
qed

subsection \<open>The segments found\<close>

lemma floor_div_nat: "nat \<lfloor>real a / real b\<rfloor> = a div b"
  by (simp add: floor_divide_of_nat_eq)

lemma ceil_div_nat:
  assumes "0 < b"
  shows "nat \<lceil>real a / real b\<rceil> = (a + b - 1) div b"
proof -
  define q r where "q = a div b" and "r = a mod b"
  have a: "a = q * b + r" and rb: "r < b" using assms by (simp_all add: q_def r_def)
  show ?thesis
  proof (cases "r = 0")
    case True
    then have "real a / real b = real q" using a assms by simp
    moreover have "(a + b - 1) div b = q"
    proof -
      define x where "x = b - 1"
      have x: "x < b" using assms by (simp add: x_def)
      have "a + b - 1 = q * b + x" using a True assms by (simp add: x_def)
      moreover have "(q * b + x) div b = q" using x by simp
      ultimately show ?thesis by simp
    qed
    ultimately show ?thesis by simp
  next
    case False
    have "real a / real b = real q + real r / real b" using a assms by (simp add: field_simps)
    moreover have "0 < real r / real b" "real r / real b < 1" using False rb assms by simp_all
    ultimately have "\<lceil>real a / real b\<rceil> = int q + 1"
      by (intro ceiling_unique) simp_all
    moreover have "(a + b - 1) div b = q + 1"
    proof -
      define x where "x = r - 1"
      have x: "x < b" using rb by (simp add: x_def)
      have e: "a + b - 1 = Suc q * b + x" using a False by (simp add: x_def algebra_simps)
      have "(Suc q * b + x) div b = Suc q + x div b" using assms by (intro div_mult_self3) simp
      moreover have "x div b = 0" using x by simp
      ultimately have "(Suc q * b + x) div b = q + 1" by (simp only: add_0_right Suc_eq_plus1)
      then show ?thesis unfolding e .
    qed
    ultimately show ?thesis by simp
  qed
qed

text \<open>The quantities of the specification: the frame size
  \<open>floor (sampleRate * frameMs / 1000)\<close>, and the bounds \<open>ceil (minDurMs / frameMs)\<close> and
  \<open>floor (maxDurMs / frameMs)\<close> on the number of frames of a run.\<close>

definition spec_frame_size :: "nat \<Rightarrow> nat \<Rightarrow> nat" where
  "spec_frame_size sample_rate frame_ms = nat \<lfloor>real sample_rate * real frame_ms / 1000\<rfloor>"

definition spec_min_frames :: "nat \<Rightarrow> nat \<Rightarrow> nat" where
  "spec_min_frames min_dur_ms frame_ms = nat \<lceil>real min_dur_ms / real frame_ms\<rceil>"

definition spec_max_frames :: "nat \<Rightarrow> nat \<Rightarrow> nat" where
  "spec_max_frames max_dur_ms frame_ms = nat \<lfloor>real max_dur_ms / real frame_ms\<rfloor>"

lemma frame_size_unat:
  assumes "unat sr * unat fms < 2 ^ 32"
  shows "unat ((sr * fms) div 1000 :: u32) = spec_frame_size (unat sr) (unat fms)"
proof -
  have "unat (sr * fms) = unat sr * unat fms" using assms unat_mult_lem [of sr fms] by simp
  then have "unat ((sr * fms) div 1000) = (unat sr * unat fms) div 1000" by (simp add: unat_div)
  moreover have "real (unat sr) * real (unat fms) / 1000 = real (unat sr * unat fms) / real (1000::nat)"
    by (simp del: of_nat_unat)
  then have "spec_frame_size (unat sr) (unat fms) = (unat sr * unat fms) div 1000"
    unfolding spec_frame_size_def by (simp only: floor_div_nat)
  ultimately show ?thesis by simp
qed

lemma min_frames_unat:
  assumes "0 < unat fms" "unat mind + unat fms \<le> 2 ^ 32"
  shows "unat ((mind + fms - 1) div fms :: u32) = spec_min_frames (unat mind) (unat fms)"
proof -
  let ?m = "unat mind + unat fms - 1"
  have lt: "?m < 2 ^ 32" using assms by simp
  have "(word_of_nat ?m :: u32) = word_of_nat (unat mind + unat fms) - 1"
    using assms(1) by (simp add: of_nat_diff)
  then have "(word_of_nat ?m :: u32) = mind + fms - 1" by simp
  then have "unat (mind + fms - 1) = ?m" using unat_of_nat_u32 [OF lt] by simp
  then have "unat ((mind + fms - 1) div fms) = ?m div unat fms" by (simp add: unat_div)
  then show ?thesis using ceil_div_nat [OF assms(1), of "unat mind"]
    by (simp add: spec_min_frames_def del: of_nat_unat)
qed

lemma max_frames_unat:
  "unat (maxd div fms :: u32) = spec_max_frames (unat maxd) (unat fms)"
  by (simp only: unat_div spec_max_frames_def floor_div_nat)

lemma voiced_runs_silence: "voiced_runs s (replicate a False @ vs) = voiced_runs (s + a) vs"
  by (induction a arbitrary: s) simp_all

lemma voiced_runs_single:
  "voiced_runs 0 (replicate a False @ replicate k True @ replicate (Suc b) False) =
     (if k = 0 then [] else [(a, k)])"
proof (cases "k = 0")
  case True
  have "voiced_runs (a + Suc b) [] = []" by simp
  then have "voiced_runs a (replicate (Suc b) False) = []"
    using voiced_runs_silence [of a "Suc b" "[]"] by simp
  then show ?thesis using True voiced_runs_silence [of 0 a "replicate (Suc b) False"] by simp
next
  case False
  have "voiced_runs (a + k) (replicate (Suc b) False) = []"
    using voiced_runs_silence [of "a + k" "Suc b" "[]"] by simp
  then have "voiced_runs a (replicate k True @ replicate (Suc b) False) = [(a, k)]"
    using voiced_runs_replicate [of k a "replicate (Suc b) False"] False by simp
  then show ?thesis
    using False voiced_runs_silence [of 0 a "replicate k True @ replicate (Suc b) False"] by simp
qed

lemma emitted_single_run:
  "emitted_segments mn mx M fs n (replicate a False @ replicate k True @ replicate (Suc b) False) =
     (if 0 < k \<and> mn \<le> k \<and> k \<le> mx \<and> 0 < M then [(a * fs, (a + k) * fs)] else [])"
  unfolding emitted_segments_def voiced_runs_single
  by (cases M) (simp_all add: run_ok_def run_interval_def)

text \<open>The flags of the frames that the scan visits: the \<open>n div frame_size\<close> complete
  frames of the buffer.\<close>

definition frame_flags :: "fval list \<Rightarrow> u32 \<Rightarrow> u32 \<Rightarrow> fval \<Rightarrow> bool list" where
  "frame_flags samples n frame_size energy_thresh =
     map (frame_voiced samples frame_size energy_thresh) [0..<unat n div unat frame_size]"

lemma find_voiced_segments_refines:
  fixes sample_rate frame_ms fs :: u32
  defines "fs \<equiv> (sample_rate * frame_ms) div 1000"
  assumes "unat sample_rate * unat frame_ms < 2 ^ 32"
    and "unat min_dur_ms + unat frame_ms \<le> 2 ^ 32"
    and "unat n + unat fs < 2 ^ 32"
    and "unat n \<le> length samples"
    and "min_dur_ms \<noteq> 0"
  shows "\<exists>segs. find_voiced_segments samples n sample_rate frame_ms energy_thresh
                  min_dur_ms max_dur_ms max_segments = Some (Inr (word_of_nat (length segs), segs)) \<and>
           length segs \<le> unat max_segments \<and>
           map (\<lambda>(a, b). (unat a, unat b)) segs =
             emitted_segments (spec_min_frames (unat min_dur_ms) (unat frame_ms))
               (spec_max_frames (unat max_dur_ms) (unat frame_ms)) (unat max_segments)
               (unat fs) (unat n) (frame_flags samples n fs energy_thresh)"
proof (cases "fs = 0 \<or> n < fs")
  case True
  then have "unat n div unat fs = 0" by (auto simp: word_less_nat_alt)
  then have "frame_flags samples n fs energy_thresh = []" by (simp add: frame_flags_def)
  then have "emitted_segments (spec_min_frames (unat min_dur_ms) (unat frame_ms))
               (spec_max_frames (unat max_dur_ms) (unat frame_ms)) (unat max_segments)
               (unat fs) (unat n) (frame_flags samples n fs energy_thresh) = []"
    by (simp add: emitted_segments_def)
  moreover have "find_voiced_segments samples n sample_rate frame_ms energy_thresh
                  min_dur_ms max_dur_ms max_segments = Some (Inr (0, []))"
    using True by (simp add: find_voiced_segments_def fs_def Let_def)
  ultimately show ?thesis by (intro exI [of _ "[]"]) simp
next
  case False
  let ?mnw = "(min_dur_ms + frame_ms - 1) div frame_ms" and ?mxw = "max_dur_ms div frame_ms"
  let ?mn = "spec_min_frames (unat min_dur_ms) (unat frame_ms)"
  let ?mx = "spec_max_frames (unat max_dur_ms) (unat frame_ms)"
  let ?flags = "frame_flags samples n fs energy_thresh"
  let ?st0 = "\<lparr>seg_count = 0, voiced_run = 0, run_start = 0, out_segs = []\<rparr>"
  from False have fs0: "0 < unat fs" by (simp add: unat_gt_0)
  have fms: "0 < unat frame_ms"
  proof (rule ccontr)
    assume "\<not> 0 < unat frame_ms"
    then have "frame_ms = 0" by (simp add: unat_eq_0)
    then have "fs = 0" by (simp add: fs_def)
    with False show False by simp
  qed
  have mn: "unat ?mnw = ?mn" using fms assms(3) by (rule min_frames_unat)
  have mx: "unat ?mxw = ?mx" by (rule max_frames_unat)
  have mn1: "1 \<le> ?mn"
  proof -
    have "0 < unat min_dur_ms" using assms(6) by (simp add: unat_gt_0)
    then have "unat frame_ms \<le> unat min_dur_ms + unat frame_ms - 1" by simp
    then have "0 < (unat min_dur_ms + unat frame_ms - 1) div unat frame_ms"
      using fms by (simp only: div_greater_zero_iff)
    then show ?thesis unfolding spec_min_frames_def ceil_div_nat [OF fms] by simp
  qed
  from find_voiced_loop_scan [OF fs0 assms(4,5), of 0 0 ?st0 max_segments energy_thresh ?mnw ?mxw]
  obtain st' where r:
    "find_voiced_loop samples n fs energy_thresh ?mnw ?mxw max_segments 0 ?st0 = Some (Inr st')"
    "seg_abs st' = scan_frames ?mn ?mx (unat max_segments) (unat fs) ?flags 0 (seg_abs ?st0)"
    "unat (seg_count st') = length (out_segs st')" "length (out_segs st') \<le> unat max_segments"
    unfolding mn mx frame_flags_def by auto
  let ?st = "emit_run ?mnw ?mxw max_segments n st'"
  note e = emit_run_abs [OF r(3,4), of ?mnw ?mxw n]
  have fin: "snd (snd (seg_abs ?st)) = scan_finish ?mn ?mx (unat max_segments) (unat n) (seg_abs st')"
    unfolding e(1) mn mx by (simp add: scan_finish_def seg_abs_def)
  have "scan_finish ?mn ?mx (unat max_segments) (unat n)
          (scan_frames ?mn ?mx (unat max_segments) (unat fs) ?flags 0 (0, 0, [])) =
        emitted_segments ?mn ?mx (unat max_segments) (unat fs) (unat n) ?flags"
    using scan_frames_spec [OF mn1, of "[]" "unat max_segments" 0 0 0 "unat fs" ?mx "unat n" ?flags]
    by (simp add: emitted_segments_def)
  then have m: "map (\<lambda>(a, b). (unat a, unat b)) (out_segs ?st) =
        emitted_segments ?mn ?mx (unat max_segments) (unat fs) (unat n) ?flags"
    using fin r(2) by (simp add: seg_abs_def)
  have "word_of_nat (unat (seg_count ?st)) = seg_count ?st" by simp
  then have c: "seg_count ?st = word_of_nat (length (out_segs ?st))" using e(2) by simp
  have "find_voiced_segments samples n sample_rate frame_ms energy_thresh
                  min_dur_ms max_dur_ms max_segments = Some (Inr (seg_count ?st, out_segs ?st))"
    using False r(1) by (simp add: find_voiced_segments_def fs_def [symmetric] Let_def)
  with c m e(3) show ?thesis by (intro exI [of _ "out_segs ?st"]) simp
qed

lemma spec_min_frames_pos: "0 < m \<Longrightarrow> 0 < f \<Longrightarrow> 1 \<le> spec_min_frames m f"
proof -
  assume m: "0 < m" and f: "0 < f"
  then have "f \<le> m + f - 1" by simp
  then have "0 < (m + f - 1) div f" using f by (simp only: div_greater_zero_iff)
  then show ?thesis unfolding spec_min_frames_def ceil_div_nat [OF f] by simp
qed

text \<open>
  C1 (as amended). Let \<open>sample_rate * frame_ms\<close>, \<open>min_dur_ms + frame_ms - 1\<close> and
  \<open>n + frame_size\<close> stay within \<^verbatim>\<open>uint32_t\<close>, and let \<open>min_dur_ms \<ge> 1\<close>. Then
  \<open>find_voiced_segments\<close> returns; its frame size is \<open>floor (sample_rate * frame_ms / 1000)\<close>;
  it scans the \<open>n div frame_size\<close> non-overlapping complete frames, a frame being voiced
  iff its energy is at least the threshold; and the segments it stores are, in order, the
  intervals of the maximal runs of voiced frames whose length \<open>runFrames\<close> satisfies
  \<open>ceil (minDurMs / frameMs) \<le> runFrames \<le> floor (maxDurMs / frameMs)\<close>, as long as fewer
  than \<open>max_segments\<close> are stored; the interval of a run goes from the offset of its first
  frame to the offset of the frame after it, or to \<open>n\<close> if the run lasts to the last frame.
  In particular, when the voiced frames form one run of \<open>k\<close> frames followed by at least one
  unvoiced frame: if \<open>k = minFrames \<le> maxFrames\<close> and \<open>max_segments \<ge> 1\<close>, exactly the
  segment of the run is returned; if \<open>k = minFrames - 1\<close>, none; if \<open>k > maxFrames\<close>, none.
\<close>

theorem find_voiced_segments_runs:
  fixes sample_rate frame_ms :: u32
  assumes "unat sample_rate * unat frame_ms < 2 ^ 32"
    and "unat min_dur_ms + unat frame_ms \<le> 2 ^ 32"
    and "unat n + unat ((sample_rate * frame_ms) div 1000) < 2 ^ 32"
    and "unat n \<le> length samples"
    and "min_dur_ms \<noteq> 0"
  shows "unat ((sample_rate * frame_ms) div 1000) =
           spec_frame_size (unat sample_rate) (unat frame_ms) \<and>
         (\<exists>segs. find_voiced_segments samples n sample_rate frame_ms energy_thresh
                  min_dur_ms max_dur_ms max_segments = Some (Inr (word_of_nat (length segs), segs)) \<and>
            length segs \<le> unat max_segments \<and>
            map (\<lambda>(a, b). (unat a, unat b)) segs =
              emitted_segments (spec_min_frames (unat min_dur_ms) (unat frame_ms))
                (spec_max_frames (unat max_dur_ms) (unat frame_ms)) (unat max_segments)
                (spec_frame_size (unat sample_rate) (unat frame_ms)) (unat n)
                (frame_flags samples n ((sample_rate * frame_ms) div 1000) energy_thresh) \<and>
            (\<forall>a k b. frame_flags samples n ((sample_rate * frame_ms) div 1000) energy_thresh =
                       replicate a False @ replicate k True @ replicate (Suc b) False \<longrightarrow>
               (k = spec_min_frames (unat min_dur_ms) (unat frame_ms) \<and>
                k \<le> spec_max_frames (unat max_dur_ms) (unat frame_ms) \<and> max_segments \<noteq> 0 \<longrightarrow>
                  map (\<lambda>(a, b). (unat a, unat b)) segs =
                    [(a * spec_frame_size (unat sample_rate) (unat frame_ms),
                      (a + k) * spec_frame_size (unat sample_rate) (unat frame_ms))]) \<and>
               (Suc k = spec_min_frames (unat min_dur_ms) (unat frame_ms) \<longrightarrow> segs = []) \<and>
               (spec_max_frames (unat max_dur_ms) (unat frame_ms) < k \<longrightarrow> segs = [])))"
proof -
  let ?fsw = "(sample_rate * frame_ms) div 1000"
  let ?fs = "spec_frame_size (unat sample_rate) (unat frame_ms)"
  let ?mn = "spec_min_frames (unat min_dur_ms) (unat frame_ms)"
  let ?mx = "spec_max_frames (unat max_dur_ms) (unat frame_ms)"
  let ?flags = "frame_flags samples n ?fsw energy_thresh"
  have fs: "unat ?fsw = ?fs" using assms(1) by (rule frame_size_unat)
  from find_voiced_segments_refines [OF assms, of energy_thresh max_dur_ms max_segments]
  obtain segs where r:
    "find_voiced_segments samples n sample_rate frame_ms energy_thresh
        min_dur_ms max_dur_ms max_segments = Some (Inr (word_of_nat (length segs), segs))"
    "length segs \<le> unat max_segments"
    "map (\<lambda>(a, b). (unat a, unat b)) segs =
       emitted_segments ?mn ?mx (unat max_segments) ?fs (unat n) ?flags"
    unfolding fs by blast
  have p: "(k = ?mn \<and> k \<le> ?mx \<and> max_segments \<noteq> 0 \<longrightarrow>
              map (\<lambda>(a, b). (unat a, unat b)) segs = [(a * ?fs, (a + k) * ?fs)]) \<and>
           (Suc k = ?mn \<longrightarrow> segs = []) \<and> (?mx < k \<longrightarrow> segs = [])"
    if fl: "?flags = replicate a False @ replicate k True @ replicate (Suc b) False" for a k b
  proof -
    have e: "map (\<lambda>(a, b). (unat a, unat b)) segs =
          (if 0 < k \<and> ?mn \<le> k \<and> k \<le> ?mx \<and> 0 < unat max_segments
           then [(a * ?fs, (a + k) * ?fs)] else [])"
      using r(3) unfolding fl emitted_single_run .
    have "?flags \<noteq> []" unfolding fl by simp
    then have "unat n div unat ?fsw \<noteq> 0" by (simp add: frame_flags_def)
    then have "?fsw \<noteq> 0" by (auto simp: unat_eq_0)
    then have "frame_ms \<noteq> 0" by auto
    then have "0 < unat frame_ms" by (simp add: unat_gt_0)
    moreover have "0 < unat min_dur_ms" using assms(5) by (simp add: unat_gt_0)
    ultimately have mn1: "1 \<le> ?mn" by (intro spec_min_frames_pos)
    have a: "k = ?mn \<and> k \<le> ?mx \<and> max_segments \<noteq> 0 \<longrightarrow>
              map (\<lambda>(a, b). (unat a, unat b)) segs = [(a * ?fs, (a + k) * ?fs)]"
      using e mn1 by (auto simp: unat_gt_0)
    have b: "Suc k = ?mn \<longrightarrow> segs = []" using e by auto
    have c: "?mx < k \<longrightarrow> segs = []" using e by auto
    from a b c show ?thesis by blast
  qed
  from fs r p show ?thesis by blast
qed

lemma energy_silent_frame: "audio_energy_db (Fin 0 # xs) 1 = Inr (Fin (- 100))"
  by (rule energy_db_rms_0) (simp add: audio_rms_def of_u32_def fl64_0 fl32_0)

lemma energy_unit_frame: "audio_energy_db (Fin 1 # xs) 1 = Inr (Fin 0)"
proof -
  have r: "audio_rms (Fin 1 # xs) 1 = Inr (Fin 1)"
    by (simp add: audio_rms_def of_u32_def fl64_0 fl64_1 fl32_1)
  have "\<not> flt (Fin 1) (fl32 (Fin (1 / 10 ^ 10)))" by (simp only: float_1e_10 flt.simps) simp
  then have "audio_energy_db (Fin 1 # xs) 1 = Inr (fl32 (fmul (Fin 20) (fl32 (flog10 (Fin 1)))))"
    by (simp only: audio_energy_db_def r sum.case if_False)
  then show ?thesis by (simp add: fl32_0)
qed

lemma flags_example:
  "frame_flags [Fin 0, Fin 1, Fin 1, Fin 0] 4 1 (Fin (- 35)) = [False, True, True, False]"
proof -
  have "[0..<unat (4::u32) div unat (1::u32)] = [0, 1, 2, 3]"
    by (simp add: upt_conv_Cons)
  then show ?thesis
    by (simp add: frame_flags_def frame_voiced_def energy_silent_frame energy_unit_frame fge_def
        numeral_2_eq_2 numeral_3_eq_3)
qed

theorem find_voiced_segments_runs_witness:
  "\<exists>segs. find_voiced_segments [Fin 0, Fin 1, Fin 1, Fin 0] 4 1000 1 (Fin (- 35)) 2 5 4 =
            Some (Inr (1, segs)) \<and>
          map (\<lambda>(a, b). (unat a, unat b)) segs = [(1, 3)]"
proof -
  let ?x = "[Fin 0, Fin 1, Fin 1, Fin 0]"
  have h: "unat (1000::u32) * unat (1::u32) < 2 ^ 32" "unat (2::u32) + unat (1::u32) \<le> 2 ^ 32"
    "unat (4::u32) + unat (((1000::u32) * 1) div 1000) < 2 ^ 32" "unat (4::u32) \<le> length ?x"
    "(2::u32) \<noteq> 0" by simp_all
  have q: "spec_frame_size (unat (1000::u32)) (unat (1::u32)) = 1"
    "spec_min_frames (unat (2::u32)) (unat (1::u32)) = 2"
    "spec_max_frames (unat (5::u32)) (unat (1::u32)) = 5"
    by (simp_all add: spec_frame_size_def spec_min_frames_def spec_max_frames_def)
  have w: "((1000::u32) * 1) div 1000 = 1" by simp
  have rep: "[False, True, True, False] = replicate 1 False @ replicate 2 True @ replicate (Suc 0) False"
    by (simp add: numeral_2_eq_2)
  have fl: "frame_flags ?x 4 (((1000::u32) * 1) div 1000) (Fin (- 35)) =
            replicate 1 False @ replicate 2 True @ replicate (Suc 0) False"
    by (simp only: w flags_example rep)
  from find_voiced_segments_runs [OF h, of "Fin (- 35)" 5 4]
  obtain segs where r:
    "find_voiced_segments ?x 4 1000 1 (Fin (- 35)) 2 5 4 = Some (Inr (word_of_nat (length segs), segs))"
    "\<forall>a k b. frame_flags ?x 4 (((1000::u32) * 1) div 1000) (Fin (- 35)) =
                       replicate a False @ replicate k True @ replicate (Suc b) False \<longrightarrow>
               (k = spec_min_frames (unat (2::u32)) (unat (1::u32)) \<and>
                k \<le> spec_max_frames (unat (5::u32)) (unat (1::u32)) \<and> (4::u32) \<noteq> 0 \<longrightarrow>
                  map (\<lambda>(a, b). (unat a, unat b)) segs =
                    [(a * spec_frame_size (unat (1000::u32)) (unat (1::u32)),
                      (a + k) * spec_frame_size (unat (1000::u32)) (unat (1::u32)))]) \<and>
               (Suc k = spec_min_frames (unat (2::u32)) (unat (1::u32)) \<longrightarrow> segs = []) \<and>
               (spec_max_frames (unat (5::u32)) (unat (1::u32)) < k \<longrightarrow> segs = [])"
    by (elim conjE exE) (rule that; assumption)
  note c = r(2) [rule_format, OF fl, THEN conjunct1, rule_format]
  have "map (\<lambda>(a, b). (unat a, unat b)) segs =
          [(1 * spec_frame_size (unat (1000::u32)) (unat (1::u32)),
            (1 + 2) * spec_frame_size (unat (1000::u32)) (unat (1::u32)))]"
    by (rule c) (simp only: q, simp)
  then have m: "map (\<lambda>(a, b). (unat a, unat b)) segs = [(1, 3)]" by (simp only: q) simp
  then have "length (map (\<lambda>(a, b). (unat a, unat b)) segs) = 1" by simp
  then have "length segs = 1" by simp
  with r(1) m show ?thesis by simp
qed

text \<open>
  The claim as stated fails in two ways. A run of exactly \<open>minFrames\<close> frames bounded by
  silence yields no segment when \<open>minFrames > maxFrames\<close> (here 2 and 1). And with
  \<open>min_dur_ms = 0\<close> the test \<^verbatim>\<open>voiced_run >= min_frames\<close> holds for the empty run at every
  unvoiced frame and after the loop: a buffer of one silent frame yields two segments,
  \<open>[0, 0)\<close> and \<open>[0, 1)\<close>, though no run of voiced frames has ended.
\<close>

theorem find_voiced_segments_counterexample:
  "find_voiced_segments [Fin 0, Fin 1, Fin 1, Fin 0] 4 1000 1 (Fin (- 35)) 2 1 4 = Some (Inr (0, [])) \<and>
   frame_flags [Fin 0, Fin 1, Fin 1, Fin 0] 4 1 (Fin (- 35)) = [False, True, True, False] \<and>
   find_voiced_segments [Fin 0] 1 1000 1 (Fin (- 35)) 0 5 4 = Some (Inr (2, [(0, 0), (0, 1)]))"
proof -
  let ?x = "[Fin 0, Fin 1, Fin 1, Fin 0]"
  have h: "unat (1000::u32) * unat (1::u32) < 2 ^ 32" "unat (2::u32) + unat (1::u32) \<le> 2 ^ 32"
    "unat (4::u32) + unat (((1000::u32) * 1) div 1000) < 2 ^ 32" "unat (4::u32) \<le> length ?x"
    "(2::u32) \<noteq> 0" by simp_all
  have w: "((1000::u32) * 1) div 1000 = 1" by simp
  have rep: "[False, True, True, False] = replicate 1 False @ replicate 2 True @ replicate (Suc 0) False"
    by (simp add: numeral_2_eq_2)
  have q: "spec_min_frames (unat (2::u32)) (unat (1::u32)) = 2"
    "spec_max_frames (unat (1::u32)) (unat (1::u32)) = 1"
    by (simp_all add: spec_min_frames_def spec_max_frames_def)
  from find_voiced_segments_refines [OF h, of "Fin (- 35)" 1 4]
  obtain segs where r:
    "find_voiced_segments ?x 4 1000 1 (Fin (- 35)) 2 1 4 = Some (Inr (word_of_nat (length segs), segs))"
    "map (\<lambda>(a, b). (unat a, unat b)) segs =
       emitted_segments (spec_min_frames (unat (2::u32)) (unat (1::u32)))
         (spec_max_frames (unat (1::u32)) (unat (1::u32))) (unat (4::u32))
         (unat (((1000::u32) * 1) div 1000)) (unat (4::u32))
         (frame_flags ?x 4 (((1000::u32) * 1) div 1000) (Fin (- 35)))"
    by (elim conjE exE) (rule that; assumption)
  have "map (\<lambda>(a, b). (unat a, unat b)) segs = []"
    unfolding r(2) w flags_example rep emitted_single_run q by simp
  then have "segs = []" by simp
  with r(1) have a: "find_voiced_segments ?x 4 1000 1 (Fin (- 35)) 2 1 4 = Some (Inr (0, []))"
    by simp
  have l2: "find_voiced_loop [Fin 0] 1 1 (Fin (- 35)) 0 5 4 1 st = Some (Inr st)" for st
    by (subst find_voiced_loop.simps) (simp add: word_le_nat_alt)
  have l1: "find_voiced_loop [Fin 0] 1 1 (Fin (- 35)) 0 5 4 0
              \<lparr>seg_count = 0, voiced_run = 0, run_start = 0, out_segs = []\<rparr> =
            Some (Inr \<lparr>seg_count = 1, voiced_run = 0, run_start = 0, out_segs = [(0, 0)]\<rparr>)"
    by (subst find_voiced_loop.simps)
       (simp add: l2 energy_silent_frame fge_def emit_run_def word_le_nat_alt word_less_nat_alt)
  have b: "find_voiced_segments [Fin 0] 1 1000 1 (Fin (- 35)) 0 5 4 =
             Some (Inr (2, [(0, 0), (0, 1)]))"
    by (simp add: find_voiced_segments_def l1 emit_run_def word_le_nat_alt word_less_nat_alt)
  from a b flags_example show ?thesis by simp
qed

section \<open>Linear resampling\<close>

subsection \<open>A faulting iteration\<close>

text \<open>
  The loop has no other fault than a read outside the input, so it ends in that fault as
  soon as one iteration \<open>j\<close> below \<open>out_len\<close> computes a left index \<open>idx0\<close> that is not an
  index of the input.
\<close>

lemma resample_loop_fault:
  assumes "i \<le> j" "j < out_len"
    and "length inp \<le> unat (to_u32 (frnd rd (fmul (of_u32 j) ratio)))"
  shows "resample_loop rd rf inp in_len ratio out_len i out = Inl OutOfBounds"
  using assms(1)
proof (induction "unat j - unat i" arbitrary: i out)
  case 0
  then have "i = j" by (simp add: word_le_nat_alt word_unat_eq_iff)
  then show ?case using assms(2,3)
    by (subst resample_loop.simps) (simp add: Let_def)
next
  case (Suc k)
  then have lt: "i < j" by (simp add: word_less_nat_alt)
  then have il: "i < out_len" using assms(2) by simp
  have u: "unat (i + 1) = unat i + 1" using u32_succ_unat [OF lt] by simp
  have le: "i + 1 \<le> j" using lt u by (simp add: word_le_nat_alt word_less_nat_alt)
  have k: "k = unat j - unat (i + 1)" using Suc(2) u by simp
  show ?case
    using il Suc(1) [OF k le]
    by (subst resample_loop.simps) (simp add: Let_def)
qed

subsection \<open>Exact arithmetic\<close>

text \<open>
  The specified output sample \<open>i\<close>: the input interpolated at the source position
  \<open>i * ratio\<close>, between the index below it and the next one (clamped to the last
  index), weighted by the fractional part.
\<close>

definition spec_interp :: "fval list \<Rightarrow> nat \<Rightarrow> real \<Rightarrow> nat \<Rightarrow> fval" where
  "spec_interp inp n ratio i =
     (let p = real i * ratio;
          i0 = nat \<lfloor>p\<rfloor>;
          i1 = min (i0 + 1) (n - 1);
          w = p - real i0
      in fadd (fmul (inp ! i0) (Fin (1 - w))) (fmul (inp ! i1) (Fin w)))"

lemma frnd_id: "frnd (\<lambda>x. x) a = a"
  by (cases a) (simp_all add: frnd_def)

lemma unat_word_of_int_u32:
  assumes "0 \<le> z" "nat z < 2 ^ 32"
  shows "unat (word_of_int z :: u32) = nat z"
proof -
  have "(word_of_int z :: u32) = of_nat (nat z)" using assms(1) by simp
  then show ?thesis using assms(2) by (simp only: unat_of_nat_u32)
qed

text \<open>A source position below \<open>in_len\<close> gives two indices of the input.\<close>

lemma resample_index:
  assumes p: "0 \<le> p" "p < real (unat (in_len :: u32))"
  shows "unat (to_u32 (Fin p)) = nat \<lfloor>p\<rfloor>"
    and "nat \<lfloor>p\<rfloor> < unat in_len"
    and "unat (min (to_u32 (Fin p) + 1) (in_len - 1)) = min (nat \<lfloor>p\<rfloor> + 1) (unat in_len - 1)"
    and "min (nat \<lfloor>p\<rfloor> + 1) (unat in_len - 1) < unat in_len"
proof -
  have f0: "0 \<le> \<lfloor>p\<rfloor>" using p(1) by simp
  have fl: "\<lfloor>p\<rfloor> < int (unat in_len)" using p(2) by (simp add: floor_less_iff)
  then show lt: "nat \<lfloor>p\<rfloor> < unat in_len" using f0 by linarith
  have "nat \<lfloor>p\<rfloor> < 2 ^ 32" using lt unat_lt_u32 [of in_len] by linarith
  then show u0: "unat (to_u32 (Fin p)) = nat \<lfloor>p\<rfloor>"
    using f0 by (simp add: to_u32_def unat_word_of_int_u32)
  have w: "to_u32 (Fin p) < in_len" using lt u0 by (simp add: word_less_nat_alt)
  have u1: "unat (to_u32 (Fin p) + 1) = nat \<lfloor>p\<rfloor> + 1"
    using u32_succ_unat [OF w] u0 by simp
  have nz: "in_len \<noteq> 0" using w by auto
  then have "unat in_len \<noteq> 0" by (simp add: unat_eq_0)
  then have um: "unat (in_len - 1) = unat in_len - 1"
    using nz by (simp add: unat_minus_one)
  show "unat (min (to_u32 (Fin p) + 1) (in_len - 1)) = min (nat \<lfloor>p\<rfloor> + 1) (unat in_len - 1)"
    using u1 um by (simp add: min_def word_le_nat_alt)
  show "min (nat \<lfloor>p\<rfloor> + 1) (unat in_len - 1) < unat in_len"
    using lt by simp
qed

lemma resample_loop_exact:
  assumes len: "length inp = unat in_len"
    and r: "0 \<le> ratio"
    and inb: "\<And>k. k < unat out_len \<Longrightarrow> real k * ratio < real (unat in_len)"
    and le: "i \<le> out_len"
  shows "resample_loop (\<lambda>x. x) (\<lambda>x. x) inp in_len (Fin ratio) out_len i out
    = Inr (out @ map (spec_interp inp (unat in_len) ratio) [unat i ..< unat out_len])"
  using le
proof (induction "unat out_len - unat i" arbitrary: i out)
  case 0
  then have "\<not> i < out_len" by (simp add: word_less_nat_alt word_le_nat_alt)
  moreover have "unat out_len \<le> unat i" using 0 by simp
  ultimately show ?case by (subst resample_loop.simps) simp
next
  case (Suc k)
  then have lt: "i < out_len" by (simp add: word_less_nat_alt)
  have u: "unat (i + 1) = unat i + 1" using u32_succ_unat [OF lt] by simp
  have le': "i + 1 \<le> out_len" using lt u by (simp add: word_le_nat_alt word_less_nat_alt)
  have k: "k = unat out_len - unat (i + 1)" using Suc(2) u by simp
  define p where "p = real (unat i) * ratio"
  have p0: "0 \<le> p" using r by (simp add: p_def del: of_nat_unat)
  have p1: "p < real (unat in_len)"
    using inb [of "unat i"] lt by (simp add: p_def word_less_nat_alt del: of_nat_unat)
  note ix = resample_index [OF p0 p1]
  have ul: "unat i < unat out_len" using lt by (simp add: word_less_nat_alt)
  have src: "fmul (of_u32 i) (Fin ratio) = Fin p" by (simp add: of_u32_def p_def)
  have ou: "of_u32 (to_u32 (Fin p)) = Fin (real (nat \<lfloor>p\<rfloor>))"
    by (simp only: of_u32_def ix(1))
  have el: "spec_interp inp (unat in_len) ratio (unat i) =
      fadd (fmul (inp ! nat \<lfloor>p\<rfloor>) (Fin (1 - (p - real (nat \<lfloor>p\<rfloor>)))))
           (fmul (inp ! min (nat \<lfloor>p\<rfloor> + 1) (unat in_len - 1)) (Fin (p - real (nat \<lfloor>p\<rfloor>))))"
    by (simp only: spec_interp_def Let_def p_def)
  have nb: "\<not> (length inp \<le> nat \<lfloor>p\<rfloor> \<or>
      length inp \<le> min (nat \<lfloor>p\<rfloor> + 1) (unat in_len - 1))"
    using ix(2,4) len by linarith
  have step: "resample_loop (\<lambda>x. x) (\<lambda>x. x) inp in_len (Fin ratio) out_len i out
      = resample_loop (\<lambda>x. x) (\<lambda>x. x) inp in_len (Fin ratio) out_len (i + 1)
          (out @ [spec_interp inp (unat in_len) ratio (unat i)])"
    by (subst resample_loop.simps)
       (simp only: lt if_True Let_def src frnd_id ou ix(1,3) nb if_False el fsub.simps)
  show ?case
    using Suc(1) [OF k le', of "out @ [spec_interp inp (unat in_len) ratio (unat i)]"] ul
    by (simp only: step u) (simp add: upt_conv_Cons)
qed

text \<open>
  Without rounding (both roundings the identity) the code does what is specified: it
  returns \<open>min(out_capacity, ceil(in_len / ratio))\<close> and writes that many samples, each
  the specified interpolation, and every index it reads is an index of the input.
\<close>

lemma audio_resample_linear_exact:
  fixes inp :: "fval list" and in_len src_rate dst_rate out_capacity :: u32
  assumes nz: "in_len \<noteq> 0" "src_rate \<noteq> 0" "dst_rate \<noteq> 0"
    and len: "length inp = unat in_len"
  defines "ratio \<equiv> real (unat src_rate) / real (unat dst_rate)"
  defines "n \<equiv> nat (min (int (unat out_capacity)) \<lceil>real (unat in_len) / ratio\<rceil>)"
  shows "audio_resample_linear (\<lambda>x. x) (\<lambda>x. x) inp in_len src_rate dst_rate out_capacity
      = Inr (word_of_nat n, map (spec_interp inp (unat in_len) ratio) [0 ..< n])"
    and "unat (word_of_nat n :: u32) = n"
proof -
  define q where "q = real (unat in_len) / ratio"
  define c where "c = \<lceil>q\<rceil>"
  have s0: "0 < real (unat src_rate)" and d0: "0 < real (unat dst_rate)"
    and l0: "0 < real (unat in_len)"
    using nz by (simp_all add: unat_gt_0 del: of_nat_unat)
  have r0: "0 < ratio" using s0 d0 by (simp add: ratio_def del: of_nat_unat)
  have q0: "0 < q" using l0 r0 by (simp add: q_def del: of_nat_unat)
  then have c0: "0 < c" by (simp add: c_def)
  have n: "n = nat (min (int (unat out_capacity)) c)" by (simp only: n_def c_def q_def)
  have nle: "n \<le> unat out_capacity" using n by linarith
  then have n32: "n < 2 ^ 32" using unat_lt_u32 [of out_capacity] by linarith
  then show un: "unat (word_of_nat n :: u32) = n" by (rule unat_of_nat_u32)
  have rat: "resample_ratio (\<lambda>x. x) src_rate dst_rate = Fin ratio"
    using d0 by (simp add: resample_ratio_def frnd_id of_u32_def ratio_def del: of_nat_unat)
  have quo: "fdiv (of_u32 in_len) (Fin ratio) = Fin q"
    using r0 by (simp add: of_u32_def q_def del: of_nat_unat)
  have ol0: "resample_out_len (\<lambda>x. x) in_len (Fin ratio) out_capacity
      = to_u32 (fmin (of_u32 out_capacity) (Fin (real_of_int c)))"
    by (simp only: resample_out_len_def frnd_id quo fceil_def fval.case c_def)
  have ol: "resample_out_len (\<lambda>x. x) in_len (Fin ratio) out_capacity = word_of_nat n"
  proof (cases "c < int (unat out_capacity)")
    case True
    then have "real_of_int c < real (unat out_capacity)" by linarith
    then have "resample_out_len (\<lambda>x. x) in_len (Fin ratio) out_capacity = word_of_int c"
      by (simp add: ol0 fmin_def to_u32_def of_u32_def del: of_nat_unat)
    moreover have "n = nat c" using True n by linarith
    ultimately show ?thesis using c0 by simp
  next
    case False
    then have "\<not> real_of_int c < real (unat out_capacity)" by linarith
    then have "resample_out_len (\<lambda>x. x) in_len (Fin ratio) out_capacity
        = word_of_int \<lfloor>real (unat out_capacity)\<rfloor>"
      by (simp add: ol0 fmin_def to_u32_def of_u32_def del: of_nat_unat)
    moreover have "\<lfloor>real (unat out_capacity)\<rfloor> = int (unat out_capacity)"
      by (rule floor_of_nat)
    moreover have "word_of_int (int (unat out_capacity)) = out_capacity"
      by simp
    moreover have "n = unat out_capacity" using False n by linarith
    ultimately show ?thesis by simp
  qed
  have inb: "real k * ratio < real (unat in_len)" if "k < unat (word_of_nat n :: u32)" for k
  proof -
    have "k < n" using that un by simp
    then have "int k < c" using n by linarith
    then have "real_of_int (int k) < q" by (simp only: c_def less_ceiling_iff)
    then have "real k < real (unat in_len) / ratio" by (simp add: q_def del: of_nat_unat)
    then show ?thesis using r0 by (simp add: pos_less_divide_eq del: of_nat_unat)
  qed
  have "resample_loop (\<lambda>x. x) (\<lambda>x. x) inp in_len (Fin ratio) (word_of_nat n) 0 []
      = Inr ([] @ map (spec_interp inp (unat in_len) ratio) [unat (0::u32) ..< unat (word_of_nat n :: u32)])"
    using r0 by (intro resample_loop_exact [OF len _ inb]) simp_all
  then have lp: "resample_loop (\<lambda>x. x) (\<lambda>x. x) inp in_len (Fin ratio) (word_of_nat n) 0 []
      = Inr (map (spec_interp inp (unat in_len) ratio) [0 ..< n])"
    by (simp only: un unat_0 append_Nil)
  show "audio_resample_linear (\<lambda>x. x) (\<lambda>x. x) inp in_len src_rate dst_rate out_capacity
      = Inr (word_of_nat n, map (spec_interp inp (unat in_len) ratio) [0 ..< n])"
    using nz by (simp add: audio_resample_linear_def rat ol lp Let_def)
qed

text \<open>With equal rates the interpolation of finite samples is the sample itself.\<close>

lemma spec_interp_equal_rate:
  assumes "inp ! i = Fin a" "inp ! min (i + 1) (n - 1) = Fin b"
  shows "spec_interp inp n 1 i = Fin a"
  using assms by (simp add: spec_interp_def Let_def)

subsection \<open>Rounding of the ratio\<close>

text \<open>The rounding of a positive value whose binary exponent \<open>e\<close> is known.\<close>

lemma ieee_round_pos:
  assumes "2 powr (of_int e) \<le> x" "x < 2 powr (of_int e + 1)"
  shows "ieee_round p x =
    2 powr (of_int e - real p + 1) * of_int (round_half_even (x / 2 powr (of_int e - real p + 1)))"
proof -
  have "0 < (2::real) powr (of_int e)" by simp
  with assms(1) have pos: "0 < x" by linarith
  have "\<lfloor>log 2 x\<rfloor> = e"
    using assms pos by (intro floor_unique) (simp_all add: le_log_iff log_less_iff)
  then show ?thesis using pos by (simp add: ieee_round_def Let_def)
qed

text \<open>
  From 7 Hz to 10 Hz: the ratio \<open>7 / 10\<close> is rounded down to the \<^verbatim>\<open>double\<close>
  \<open>3152519739159347 / 2\<^sup>5\<^sup>2\<close>; dividing 21 by it gives a quotient just above 30, which is
  rounded to the next \<^verbatim>\<open>double\<close> above 30, \<open>30 + 2\<^sup>-\<^sup>4\<^sup>8\<close>; and the product of 30 and the
  ratio, just below 21, is rounded to 21.
\<close>

lemma ratio_7_10:
  "resample_ratio (ieee_round 53) 7 10 = Fin (3152519739159347 / 4503599627370496)"
  using ieee_round_pos [of "- 1" "7 / 10" 53]
  by (simp add: resample_ratio_def frnd_def of_u32_def round_half_even_def
      powr_minus_divide Let_def)

lemma quot_21:
  "ieee_round 53 (94575592174780416 / 3152519739159347) = 8444249301319681 / 281474976710656"
  using ieee_round_pos [of 4 "94575592174780416 / 3152519739159347" 53]
  by (simp add: round_half_even_def powr_minus_divide Let_def)

lemma prod_30: "ieee_round 53 (47287796087390205 / 2251799813685248) = 21"
  using ieee_round_pos [of 4 "47287796087390205 / 2251799813685248" 53]
  by (simp add: round_half_even_def powr_minus_divide Let_def)

lemma out_len_21:
  "resample_out_len (ieee_round 53) 21 (Fin (3152519739159347 / 4503599627370496)) 100 = 31"
  by (simp add: resample_out_len_def frnd_def of_u32_def quot_21 fceil_def fmin_def to_u32_def)

lemma idx_30:
  "to_u32 (frnd (ieee_round 53) (fmul (of_u32 30) (Fin (3152519739159347 / 4503599627370496))))
     = 21"
  by (simp add: frnd_def of_u32_def prod_30 to_u32_def)

subsection \<open>The resampler reads past its input\<close>

text \<open>
  Claim C8. The resampler is specified to write \<open>min(outCapacity, ceil(inLen / ratio))\<close>
  samples, with \<open>ratio = inRate / outRate\<close> a real number, each interpolated between two
  valid indices of the input. The code computes the ratio and the quotient in
  \<^verbatim>\<open>double\<close>, and their rounding can push the quotient above an integer that the real
  quotient equals. For 21 samples resampled from 7 Hz to 10 Hz into a buffer of 100, the
  real count is \<open>min(100, ceil(21 / 0.7)) = 30\<close>, but the code computes \<open>out_len = 31\<close>;
  at \<open>i = 30\<close> its source position is rounded to 21, so \<open>idx0 = 21 = in_len\<close> and it
  reads \<^verbatim>\<open>in[21]\<close>, one past the last sample, whatever the 21 samples are.
\<close>

theorem resample_rounding_overrun:
  "resample_ratio (ieee_round 53) 7 10 = Fin (ieee_round 53 (7 / 10)) \<and>
   resample_out_len (ieee_round 53) 21 (resample_ratio (ieee_round 53) 7 10) 100 = 31 \<and>
   min (100::int) \<lceil>21 / (7 / 10 :: real)\<rceil> = 30 \<and>
   to_u32 (frnd (ieee_round 53) (fmul (of_u32 30) (resample_ratio (ieee_round 53) 7 10))) = 21 \<and>
   (\<forall>inp. length inp = 21 \<longrightarrow>
      audio_resample_linear (ieee_round 53) (ieee_round 24) inp 21 7 10 100 = Inl OutOfBounds)"
proof (intro conjI allI impI)
  show "resample_ratio (ieee_round 53) 7 10 = Fin (ieee_round 53 (7 / 10))"
    by (simp add: resample_ratio_def frnd_def of_u32_def)
  show "resample_out_len (ieee_round 53) 21 (resample_ratio (ieee_round 53) 7 10) 100 = 31"
    by (simp only: ratio_7_10 out_len_21)
  show "min (100::int) \<lceil>21 / (7 / 10 :: real)\<rceil> = 30"
    by simp
  show "to_u32 (frnd (ieee_round 53) (fmul (of_u32 30) (resample_ratio (ieee_round 53) 7 10))) = 21"
    by (simp only: ratio_7_10 idx_30)
next
  fix inp :: "fval list"
  assume len: "length inp = 21"
  have "resample_loop (ieee_round 53) (ieee_round 24) inp 21
          (Fin (3152519739159347 / 4503599627370496)) 31 0 [] = Inl OutOfBounds"
  proof (rule resample_loop_fault [where j = 30])
    show "(0::u32) \<le> 30" by simp
    show "(30::u32) < 31" by simp
    show "length inp \<le> unat (to_u32 (frnd (ieee_round 53)
            (fmul (of_u32 30) (Fin (3152519739159347 / 4503599627370496)))))"
      by (simp only: idx_30) (simp add: len)
  qed
  then show "audio_resample_linear (ieee_round 53) (ieee_round 24) inp 21 7 10 100
      = Inl OutOfBounds"
    by (simp add: audio_resample_linear_def ratio_7_10 out_len_21 Let_def)
qed

text \<open>The overrun on 21 samples of silence.\<close>

theorem resample_rounding_overrun_witness:
  "length (replicate 21 (Fin 0)) = 21 \<and>
   audio_resample_linear (ieee_round 53) (ieee_round 24) (replicate 21 (Fin 0)) 21 7 10 100
     = Inl OutOfBounds"
  using resample_rounding_overrun by simp

end
